theory Spec2Isabelle
  imports Main
begin

section \<open>Python values, errors and dictionaries\<close>

text \<open>
  The exceptions the modelled code can raise. An exception is a value: a fallible
  operation returns \<open>error + 'a\<close>, with \<open>Inl\<close> for the raise.
\<close>

datatype error =
    TypeError string
  | AttributeError
  | IndexError
  | AssertionError
  | FileNotFoundError
  | IsADirectoryError
  | NotADirectoryError
  | FileExistsError
  | PermissionError
  | ValidationError
  | YAMLError
  | ValueError
  | TemplateError
  | CalledProcessError

text \<open>\<open>except OSError\<close> catches the file-system errors and nothing else.\<close>

fun is_OSError :: "error \<Rightarrow> bool" where
  "is_OSError FileNotFoundError = True"
| "is_OSError IsADirectoryError = True"
| "is_OSError NotADirectoryError = True"
| "is_OSError FileExistsError = True"
| "is_OSError PermissionError = True"
| "is_OSError _ = False"

text \<open>
  Answer values (\<open>Any\<close> in the source): the values a YAML document or a caller's
  \<open>data\<close> holds, and \<open>VObj\<close> for every other Python object (a function, say),
  told apart by a number. Dictionaries have string keys (\<open>AnyByStrDict\<close>).
\<close>

datatype val =
    VNone
  | VBool bool
  | VInt int
  | VStr string
  | VList "val list"
  | VDict "(string \<times> val) list"
  | VObj nat

text \<open>Python truth value testing, as \<open>if x:\<close> applies it.\<close>

fun truthy :: "val \<Rightarrow> bool" where
  "truthy VNone = False"
| "truthy (VBool b) = b"
| "truthy (VInt i) = (i \<noteq> 0)"
| "truthy (VStr s) = (s \<noteq> [])"
| "truthy (VList xs) = (xs \<noteq> [])"
| "truthy (VDict kvs) = (kvs \<noteq> [])"
| "truthy (VObj n) = True"

text \<open>
  A \<open>dict\<close> keeps its keys in insertion order: an association list. \<open>d[k] = v\<close>
  keeps the place of a key that is there and appends a new one.
\<close>

type_synonym 'v pydict = "(string \<times> 'v) list"

fun dict_set :: "'v pydict \<Rightarrow> string \<Rightarrow> 'v \<Rightarrow> 'v pydict" where
  "dict_set [] k v = [(k, v)]"
| "dict_set ((k', v') # d) k v =
     (if k' = k then (k, v) # d else (k', v') # dict_set d k v)"

definition dict_update :: "'v pydict \<Rightarrow> (string \<times> 'v) list \<Rightarrow> 'v pydict" where
  "dict_update d items = foldl (\<lambda>acc (k, v). dict_set acc k v) d items"

text \<open>\<open>d.get(k)\<close> on a dictionary of values: \<open>None\<close> for a missing key.\<close>

definition dict_get :: "val pydict \<Rightarrow> string \<Rightarrow> val" where
  "dict_get d k = (case map_of d k of None \<Rightarrow> VNone | Some v \<Rightarrow> v)"

definition startswith :: "string \<Rightarrow> string \<Rightarrow> bool" where
  "startswith s x = (take (length x) s = x)"

definition endswith :: "string \<Rightarrow> string \<Rightarrow> bool" where
  "endswith s x = (length x \<le> length s \<and> drop (length s - length x) s = x)"

text \<open>
  \<open>collections.ChainMap\<close>: a lookup returns the value of the first mapping that has
  the key; iteration goes through the mappings from the last to the first and keeps
  each key where it was first seen.
\<close>

fun ChainMap_get :: "'v pydict list \<Rightarrow> string \<Rightarrow> 'v option" where
  "ChainMap_get [] k = None"
| "ChainMap_get (m # ms) k =
     (case map_of m k of Some v \<Rightarrow> Some v | None \<Rightarrow> ChainMap_get ms k)"

definition ChainMap_keys :: "'v pydict list \<Rightarrow> string list" where
  "ChainMap_keys maps =
     map fst (foldl (\<lambda>d m. dict_update d (map (\<lambda>(k, v). (k, ())) m)) [] (rev maps))"

definition ChainMap_items :: "'v pydict list \<Rightarrow> (string \<times> 'v) list" where
  "ChainMap_items maps =
     List.map_filter (\<lambda>k. map_option (Pair k) (ChainMap_get maps k)) (ChainMap_keys maps)"

section \<open>AnswersMap\<close>

text \<open>
  The four public layers and the private \<open>_local\<close> one. \<open>combined\<close> is the
  \<open>ChainMap\<close> of the source, in its order; \<open>DEFAULT_DATA\<close> is a constant of
  \<open>copier.config.objects\<close> and a parameter here.
\<close>

record 'v AnswersMap =
  am_init :: "'v pydict"
  am_user :: "'v pydict"
  am_last :: "'v pydict"
  am_default :: "'v pydict"
  am_local :: "'v pydict"

definition combined :: "'v pydict \<Rightarrow> 'v AnswersMap \<Rightarrow> 'v pydict list" where
  "combined DEFAULT_DATA am =
     [am_local am, am_user am, am_init am, am_last am, am_default am, DEFAULT_DATA]"

definition old_commit :: "val AnswersMap \<Rightarrow> val" where
  "old_commit am = dict_get (am_last am) ''_commit''"

section \<open>Paths and the destination's files\<close>

text \<open>
  A \<open>pathlib\<close> path: whether it is absolute, and its parts. \<open>PurePath(*args)\<close>
  splits every argument at \<open>/\<close>, drops the empty and the \<open>.\<close> components, and
  starts again from the root at an argument that begins with \<open>/\<close>.
\<close>

datatype path = Path (is_absolute: bool) (parts: "string list")

fun split_sep :: "string \<Rightarrow> string list" where
  "split_sep [] = [[]]"
| "split_sep (c # cs) =
     (if c = CHR ''/'' then [] # split_sep cs
      else (case split_sep cs of [] \<Rightarrow> [[c]] | w # ws \<Rightarrow> (c # w) # ws))"

definition components :: "string \<Rightarrow> string list" where
  "components s = filter (\<lambda>x. x \<noteq> [] \<and> x \<noteq> ''.'') (split_sep s)"

definition joinpath :: "path \<Rightarrow> string \<Rightarrow> path" where
  "joinpath p s =
     (if startswith s ''/'' then Path True (components s)
      else Path (is_absolute p) (parts p @ components s))"

definition Path_of :: "string list \<Rightarrow> path" where
  "Path_of args = foldl joinpath (Path False []) args"

text \<open>
  The destination directory (\<open>subproject.local_path\<close>): a map from the parts of a
  path relative to it to what is there: a file with its text, a directory, or a file
  that the process may neither read nor write. \<open>[]\<close> is the directory itself. Text
  encodings are not part of the model, and the parent of the destination directory is
  taken to exist.
\<close>

datatype node = File string | Dir | NoAccess

type_synonym fs = "string list \<Rightarrow> node option"

fun is_file :: "node option \<Rightarrow> bool" where
  "is_file (Some (File c)) = True"
| "is_file (Some NoAccess) = True"
| "is_file _ = False"

fun proper_prefixes :: "string list \<Rightarrow> string list list" where
  "proper_prefixes [] = []"
| "proper_prefixes (x # xs) = [] # map ((#) x) (proper_prefixes xs)"

definition under_file :: "fs \<Rightarrow> string list \<Rightarrow> bool" where
  "under_file f p = list_ex (\<lambda>q. is_file (f q)) (proper_prefixes p)"

definition parent_missing :: "fs \<Rightarrow> string list \<Rightarrow> bool" where
  "parent_missing f p = (p \<noteq> [] \<and> f (butlast p) = None)"

definition read_text :: "fs \<Rightarrow> string list \<Rightarrow> error + string" where
  "read_text f p =
     (if under_file f p then Inl NotADirectoryError
      else case f p of
          None \<Rightarrow> Inl FileNotFoundError
        | Some Dir \<Rightarrow> Inl IsADirectoryError
        | Some NoAccess \<Rightarrow> Inl PermissionError
        | Some (File c) \<Rightarrow> Inr c)"

definition exists_path :: "fs \<Rightarrow> string list \<Rightarrow> bool" where
  "exists_path f p = (\<not> under_file f p \<and> f p \<noteq> None)"

definition write_text :: "fs \<Rightarrow> string list \<Rightarrow> string \<Rightarrow> error + fs" where
  "write_text f p c =
     (if under_file f p then Inl NotADirectoryError
      else if f p = Some Dir then Inl IsADirectoryError
      else if f p = Some NoAccess then Inl PermissionError
      else if parent_missing f p then Inl FileNotFoundError
      else Inr (f(p \<mapsto> File c)))"

definition mkdir_exist_ok :: "fs \<Rightarrow> string list \<Rightarrow> error + fs" where
  "mkdir_exist_ok f p =
     (if under_file f p then Inl NotADirectoryError
      else case f p of
          Some Dir \<Rightarrow> Inr f
        | Some (File c) \<Rightarrow> Inl FileExistsError
        | Some NoAccess \<Rightarrow> Inl FileExistsError
        | None \<Rightarrow> if parent_missing f p then Inl FileNotFoundError else Inr (f(p \<mapsto> Dir)))"

section \<open>Template and Subproject\<close>

text \<open>
  A template is the pair the source constructs. What its cached properties compute
  from the template's files and its repository (\<open>load_config_data\<close>,
  \<open>filter_config\<close>, \<open>git describe\<close>, the directory listing) is not in the
  sources: \<open>template_data\<close> holds their results, \<open>config_data.get(key)\<close> as an
  optional entry for each key the code reads. Loading is taken to succeed.
\<close>

record Template =
  url :: string
  ref :: "string option"

datatype task_cmd = Shell string | Argv "string list"

datatype src_node = SFile string string | SDir string "src_node list"

record template_data =
  commit :: "string option"
  cfg_exclude :: "string list option"
  cfg_secret_questions :: "string list option"
  cfg_tasks :: "task_cmd list option"
  cfg_templates_suffix :: "string option"
  questions_data :: "(string \<times> val pydict) list"
  local_path_is_absolute :: bool
  tree :: "src_node list"

definition default_answers :: "template_data \<Rightarrow> val pydict" where
  "default_answers td = map (\<lambda>(key, v). (key, dict_get v ''default'')) (questions_data td)"

definition secret_questions :: "template_data \<Rightarrow> string list" where
  "secret_questions td =
     (case cfg_secret_questions td of None \<Rightarrow> [] | Some ks \<Rightarrow> ks)
     @ map fst (filter (\<lambda>(key, v). truthy (dict_get v ''secret'')) (questions_data td))"

definition tasks :: "template_data \<Rightarrow> task_cmd list" where
  "tasks td = (case cfg_tasks td of None \<Rightarrow> [] | Some ts \<Rightarrow> ts)"

definition templates_suffix :: "string \<Rightarrow> template_data \<Rightarrow> string" where
  "templates_suffix DEFAULT_TEMPLATES_SUFFIX td =
     (case cfg_templates_suffix td of None \<Rightarrow> DEFAULT_TEMPLATES_SUFFIX | Some s \<Rightarrow> s)"

text \<open>
  The collaborators that are not in the sources: the constants of
  \<open>copier.config.objects\<close> and \<open>copier.types\<close>, the YAML parser, pydantic's
  coercion of a \<open>str\<close> field, the template loader, \<open>unicodedata.normalize\<close>,
  \<open>pathspec\<close>'s matcher built from a list of lines, \<open>copier.tools.create_path_filter\<close>,
  the Jinja environment (\<open>from_string\<close> and \<open>get_template\<close> compile a template, which
  is then rendered against a context), and the child process of a task with what it
  does to the destination.
\<close>

record env =
  DEFAULT_DATA :: "val pydict"
  DEFAULT_EXCLUDE :: "string list"
  DEFAULT_TEMPLATES_SUFFIX :: string
  JSONSerializable :: "val \<Rightarrow> bool"
  yaml_safe_load :: "string \<Rightarrow> error + val"
  str_validator :: "val \<Rightarrow> error + string"
  load_template :: "Template \<Rightarrow> template_data"
  normalize :: "string \<Rightarrow> string \<Rightarrow> string"
  match_file :: "string list \<Rightarrow> path \<Rightarrow> bool"
  create_path_filter :: "string list \<Rightarrow> path \<Rightarrow> bool"
  from_string :: "string \<Rightarrow> error + (val pydict \<Rightarrow> error + string)"
  get_template :: "string list \<Rightarrow> error + (val pydict \<Rightarrow> error + string)"
  subprocess_run :: "task_cmd \<Rightarrow> (string \<times> string) list \<Rightarrow> fs \<Rightarrow> error + fs"

record Subproject =
  answers_relpath :: "string list"

definition raw_answers :: "env \<Rightarrow> fs \<Rightarrow> Subproject \<Rightarrow> error + val" where
  "raw_answers E f sp =
     (case read_text f (answers_relpath sp) of
        Inl e \<Rightarrow> if is_OSError e then Inr (VDict []) else Inl e
      | Inr text \<Rightarrow> yaml_safe_load E text)"

text \<open>\<open>.items()\<close> and \<open>.get\<close> exist on a dictionary only.\<close>

definition last_answers :: "env \<Rightarrow> fs \<Rightarrow> Subproject \<Rightarrow> error + val pydict" where
  "last_answers E f sp =
     (case raw_answers E f sp of
        Inl e \<Rightarrow> Inl e
      | Inr (VDict kvs) \<Rightarrow>
          Inr (filter (\<lambda>(key, v). key \<in> {''_src_path'', ''_commit''} \<or> \<not> startswith key ''_'') kvs)
      | Inr _ \<Rightarrow> Inl AttributeError)"

text \<open>\<open>Template(url=..., ref=...)\<close> from values: pydantic validates both fields.\<close>

definition Template_new :: "env \<Rightarrow> val \<Rightarrow> val \<Rightarrow> error + Template" where
  "Template_new E u r =
     (case str_validator E u of
        Inl e \<Rightarrow> Inl e
      | Inr us \<Rightarrow>
          (if r = VNone then Inr \<lparr>url = us, ref = None\<rparr>
           else case str_validator E r of
               Inl e \<Rightarrow> Inl e
             | Inr rs \<Rightarrow> Inr \<lparr>url = us, ref = Some rs\<rparr>))"

definition Subproject_template :: "env \<Rightarrow> fs \<Rightarrow> Subproject \<Rightarrow> error + Template option" where
  "Subproject_template E f sp =
     (case raw_answers E f sp of
        Inl e \<Rightarrow> Inl e
      | Inr (VDict kvs) \<Rightarrow>
          (let last_url = dict_get kvs ''_src_path'';
               last_ref = dict_get kvs ''_commit''
           in if truthy last_url
              then (case Template_new E last_url last_ref of
                      Inl e \<Rightarrow> Inl e
                    | Inr t \<Rightarrow> Inr (Some t))
              else Inr None)
      | Inr _ \<Rightarrow> Inl AttributeError)"

section \<open>Worker\<close>

record Worker =
  answers_file :: "string list"
  cleanup_on_error :: bool
  data :: "val pydict"
  exclude :: "string list"
  force :: bool
  pretend :: bool
  quiet :: bool
  skip_if_exists :: "string list"
  src_path :: "string option"
  subdirectory :: "string option"
  use_prereleases :: bool
  vcs_ref :: "string option"

definition subproject :: "Worker \<Rightarrow> Subproject" where
  "subproject w = \<lparr>answers_relpath = answers_file w\<rparr>"

text \<open>\<open>if self.src_path:\<close> is false for \<open>None\<close> and for the empty string.\<close>

definition Worker_template :: "env \<Rightarrow> fs \<Rightarrow> Worker \<Rightarrow> error + Template" where
  "Worker_template E f w =
     (if (case src_path w of None \<Rightarrow> False | Some s \<Rightarrow> s \<noteq> [])
      then Inr \<lparr>url = (case src_path w of None \<Rightarrow> [] | Some s \<Rightarrow> s), ref = vcs_ref w\<rparr>
      else (case Subproject_template E f (subproject w) of
              Inl e \<Rightarrow> Inl e
            | Inr None \<Rightarrow> Inl (TypeError ''Template not found'')
            | Inr (Some t) \<Rightarrow> Inr t))"

section \<open>Worker: the answers and the render context\<close>

definition answers :: "env \<Rightarrow> fs \<Rightarrow> Worker \<Rightarrow> template_data \<Rightarrow> error + val AnswersMap" where
  "answers E f w td =
     (case last_answers E f (subproject w) of
        Inl e \<Rightarrow> Inl e
      | Inr la \<Rightarrow>
          Inr \<lparr>am_init = data w, am_user = [], am_last = la,
               am_default = default_answers td, am_local = []\<rparr>)"

text \<open>
  The mapping that the body of \<open>_answers_to_remember\<close> builds in its local variable
  \<open>answers\<close>: the two internal values first, each only if it is not \<open>None\<close>, then
  the filtered items of \<open>answers.combined\<close>.
\<close>

definition remembered :: "env \<Rightarrow> Template \<Rightarrow> template_data \<Rightarrow> val AnswersMap \<Rightarrow> val pydict" where
  "remembered E t td am =
     dict_update
       (foldl (\<lambda>d (key, v). case v of None \<Rightarrow> d | Some x \<Rightarrow> dict_set d key (VStr x)) []
          [(''_commit'', commit td), (''_src_path'', Some (url t))])
       (filter (\<lambda>(k, v). \<not> startswith k ''_''
                  \<and> k \<notin> set (secret_questions td)
                  \<and> JSONSerializable E (VStr k)
                  \<and> JSONSerializable E v)
          (ChainMap_items (combined (DEFAULT_DATA E) am)))"

text \<open>
  \<open>_answers_to_remember\<close> itself: it builds the mapping and ends without a
  \<open>return\<close>, so its value is \<open>None\<close>.
\<close>

definition answers_to_remember :: "env \<Rightarrow> fs \<Rightarrow> Worker \<Rightarrow> error + val" where
  "answers_to_remember E f w =
     (case Worker_template E f w of
        Inl e \<Rightarrow> Inl e
      | Inr t \<Rightarrow>
          (case answers E f w (load_template E t) of
             Inl e \<Rightarrow> Inl e
           | Inr am \<Rightarrow> (let answers = remembered E t (load_template E t) am in Inr VNone)))"

text \<open>
  \<open>dict(DEFAULT_DATA, **answers, _copier_answers=answers, _copier_conf=...)\<close>:
  \<open>**\<close> takes a mapping and raises \<open>TypeError\<close> on anything else.
\<close>

definition render_context :: "env \<Rightarrow> fs \<Rightarrow> Worker \<Rightarrow> error + val pydict" where
  "render_context E f w =
     (case answers_to_remember E f w of
        Inl e \<Rightarrow> Inl e
      | Inr (VDict d) \<Rightarrow>
          Inr (dict_update (DEFAULT_DATA E)
                 (d @ [(''_copier_answers'', VDict d), (''_copier_conf'', VObj 0)]))
      | Inr _ \<Rightarrow> Inl (TypeError ''argument after ** must be a mapping''))"

definition render_string :: "env \<Rightarrow> fs \<Rightarrow> Worker \<Rightarrow> string \<Rightarrow> error + string" where
  "render_string E f w s =
     (case from_string E s of
        Inl e \<Rightarrow> Inl e
      | Inr tpl \<Rightarrow> (case render_context E f w of Inl e \<Rightarrow> Inl e | Inr ctx \<Rightarrow> tpl ctx))"

text \<open>
  The rendering operations below reach the template engine in two places:
  \<open>self.render_string(part)\<close>, and \<open>get_template(str(src_relpath))\<close> followed by
  \<open>tpl.render(**self._render_context())\<close> for a file with the templates suffix. They
  take the two as a \<open>renderer\<close>, so that what they do is stated for every behaviour of
  the engine; \<open>Worker_renderer\<close> is the one the source gives them.
\<close>

record renderer =
  rstring :: "string \<Rightarrow> error + string"
  rfile :: "string list \<Rightarrow> error + string"

definition Worker_renderer :: "env \<Rightarrow> fs \<Rightarrow> Worker \<Rightarrow> renderer" where
  "Worker_renderer E f w =
     \<lparr>rstring = render_string E f w,
      rfile = (\<lambda>rel. case get_template E rel of
                  Inl e \<Rightarrow> Inl e
                | Inr tpl \<Rightarrow> (case render_context E f w of Inl e \<Rightarrow> Inl e | Inr ctx \<Rightarrow> tpl ctx))\<rparr>"

section \<open>Worker: exclusions and conflicts\<close>

definition all_exclusions :: "env \<Rightarrow> Worker \<Rightarrow> template_data \<Rightarrow> string list" where
  "all_exclusions E w td =
     (case cfg_exclude td of None \<Rightarrow> DEFAULT_EXCLUDE E | Some base \<Rightarrow> base) @ exclude w"

text \<open>
  \<open>map(normalize, ("NFD",), patterns)\<close> applies \<open>normalize\<close> to the two sequences in
  parallel and stops at the end of the shorter one.
\<close>

definition path_matcher :: "env \<Rightarrow> string list \<Rightarrow> path \<Rightarrow> bool" where
  "path_matcher E patterns =
     match_file E (map (\<lambda>(form, pattern). normalize E form pattern) (zip [''NFD''] patterns))"

text \<open>
  The state a run works on: the destination's files, the replies the user will still
  give to \<open>ask\<close> (with none left, the end of input, \<open>ask\<close> returns its default,
  \<open>True\<close>), and the child processes started so far. What is printed is not modelled.
\<close>

record state =
  dst :: fs
  prompts :: "bool list"
  executed :: "(task_cmd \<times> (string \<times> string) list) list"

definition solve_render_conflict :: "Worker \<Rightarrow> path \<Rightarrow> state \<Rightarrow> (error + bool) \<times> state" where
  "solve_render_conflict w dst_relpath st =
     (if is_absolute dst_relpath then (Inl AssertionError, st)
      else if force w then (Inr True, st)
      else (case prompts st of
              [] \<Rightarrow> (Inr True, st)
            | reply # rest \<Rightarrow> (Inr reply, st\<lparr>prompts := rest\<rparr>)))"

definition render_allowed ::
  "env \<Rightarrow> Worker \<Rightarrow> template_data \<Rightarrow> path \<Rightarrow> bool \<Rightarrow> string \<Rightarrow> state \<Rightarrow> (error + bool) \<times> state" where
  "render_allowed E w td dst_relpath is_dir expected_contents st =
     (if is_absolute dst_relpath then (Inl AssertionError, st)
      else if expected_contents \<noteq> [] \<and> is_dir then (Inl AssertionError, st)
      else if path_matcher E (all_exclusions E w td) dst_relpath then (Inr False, st)
      else if create_path_filter E (skip_if_exists w) dst_relpath
              \<and> exists_path (dst st) (parts dst_relpath) then (Inr False, st)
      else (case read_text (dst st) (parts dst_relpath) of
              Inl FileNotFoundError \<Rightarrow> (Inr True, st)
            | Inl IsADirectoryError \<Rightarrow>
                (if is_dir then (Inr True, st) else solve_render_conflict w dst_relpath st)
            | Inl e \<Rightarrow> (Inl e, st)
            | Inr previous_content \<Rightarrow>
                (if previous_content = expected_contents then (Inr True, st)
                 else solve_render_conflict w dst_relpath st)))"

section \<open>Worker: rendering\<close>

text \<open>The loop of \<open>render_path\<close>: it stops at the first part that renders empty.\<close>

fun render_parts :: "(string \<Rightarrow> error + string) \<Rightarrow> string list \<Rightarrow> error + string list option" where
  "render_parts rs [] = Inr (Some [])"
| "render_parts rs (part # rest) =
     (case rs part of
        Inl e \<Rightarrow> Inl e
      | Inr p \<Rightarrow>
          (if p = [] then Inr None
           else (case render_parts rs rest of
                   Inl e \<Rightarrow> Inl e
                 | Inr None \<Rightarrow> Inr None
                 | Inr (Some ps) \<Rightarrow> Inr (Some (p # ps)))))"

text \<open>The slice \<open>s[:-n]\<close> for \<open>n \<ge> 0\<close>; \<open>s[:-0]\<close> is \<open>s[:0]\<close>, the empty string.\<close>

definition slice_upto_neg :: "string \<Rightarrow> nat \<Rightarrow> string" where
  "slice_upto_neg s n = (if n = 0 then [] else take (length s - n) s)"

text \<open>
  \<open>render_path\<close>, on the parts of the relative path. \<open>rendered_parts[-1]\<close> raises
  \<open>IndexError\<close> on the empty list.
\<close>

definition render_path :: "renderer \<Rightarrow> string \<Rightarrow> string list \<Rightarrow> error + path option" where
  "render_path R sfx relpath =
     (case render_parts (rstring R) relpath of
        Inl e \<Rightarrow> Inl e
      | Inr None \<Rightarrow> Inr None
      | Inr (Some rendered_parts) \<Rightarrow>
          (if rendered_parts = [] then Inl IndexError
           else if endswith (last rendered_parts) sfx
           then Inr (Some (Path_of (butlast rendered_parts
                                    @ [slice_upto_neg (last rendered_parts) (length sfx)])))
           else Inr (Some (Path_of rendered_parts))))"

text \<open>
  \<open>render_file\<close>, for the source file at \<open>src_relpath\<close> under the template's
  \<open>local_path\<close>, with the text it holds. A result \<open>(None, st)\<close> is a normal return,
  \<open>(Some e, st)\<close> a raise of \<open>e\<close>, both in the state reached.
\<close>

definition render_file ::
  "renderer \<Rightarrow> env \<Rightarrow> Worker \<Rightarrow> template_data \<Rightarrow> string list \<Rightarrow> string \<Rightarrow> state
     \<Rightarrow> error option \<times> state" where
  "render_file R E w td src_relpath content st =
     (if \<not> local_path_is_absolute td then (Some AssertionError, st)
      else (case render_path R (templates_suffix (DEFAULT_TEMPLATES_SUFFIX E) td) src_relpath of
              Inl e \<Rightarrow> (Some e, st)
            | Inr None \<Rightarrow> (None, st)
            | Inr (Some dst_relpath) \<Rightarrow>
                (case (if endswith (if src_relpath = [] then [] else last src_relpath)
                             (templates_suffix (DEFAULT_TEMPLATES_SUFFIX E) td)
                       then rfile R src_relpath else Inr content) of
                   Inl e \<Rightarrow> (Some e, st)
                 | Inr new_content \<Rightarrow>
                     (case render_allowed E w td dst_relpath False new_content st of
                        (Inl e, st1) \<Rightarrow> (Some e, st1)
                      | (Inr False, st1) \<Rightarrow> (None, st1)
                      | (Inr True, st1) \<Rightarrow>
                          (case write_text (dst st1) (parts dst_relpath) new_content of
                             Inl e \<Rightarrow> (Some e, st1)
                           | Inr f \<Rightarrow> (None, st1\<lparr>dst := f\<rparr>))))))"

text \<open>
  \<open>render_folder\<close>, for the source folder at \<open>src_relpath\<close>; \<open>listing\<close> is what
  \<open>iterdir()\<close> gives there: the children in the order of the listing, or the error
  it raises when the folder is not there.
\<close>

function render_folder ::
  "renderer \<Rightarrow> env \<Rightarrow> Worker \<Rightarrow> template_data \<Rightarrow> string list \<Rightarrow> error + src_node list \<Rightarrow> state
     \<Rightarrow> error option \<times> state"
and render_children ::
  "renderer \<Rightarrow> env \<Rightarrow> Worker \<Rightarrow> template_data \<Rightarrow> string list \<Rightarrow> src_node list \<Rightarrow> state
     \<Rightarrow> error option \<times> state" where
  "render_folder R E w td src_relpath listing st =
     (if \<not> local_path_is_absolute td then (Some AssertionError, st)
      else (case render_path R (templates_suffix (DEFAULT_TEMPLATES_SUFFIX E) td) src_relpath of
              Inl e \<Rightarrow> (Some e, st)
            | Inr None \<Rightarrow> (None, st)
            | Inr (Some dst_relpath) \<Rightarrow>
                (case render_allowed E w td dst_relpath True [] st of
                   (Inl e, st1) \<Rightarrow> (Some e, st1)
                 | (Inr False, st1) \<Rightarrow> (None, st1)
                 | (Inr True, st1) \<Rightarrow>
                     (case (if pretend w then Inr (dst st1)
                            else mkdir_exist_ok (dst st1) (parts dst_relpath)) of
                        Inl e \<Rightarrow> (Some e, st1)
                      | Inr f \<Rightarrow>
                          (case listing of
                             Inl e \<Rightarrow> (Some e, st1\<lparr>dst := f\<rparr>)
                           | Inr children \<Rightarrow>
                               render_children R E w td src_relpath children (st1\<lparr>dst := f\<rparr>))))))"
| "render_children R E w td src_relpath [] st = (None, st)"
| "render_children R E w td src_relpath (SFile name content # rest) st =
     (case render_file R E w td (src_relpath @ [name]) content st of
        (Some e, st1) \<Rightarrow> (Some e, st1)
      | (None, st1) \<Rightarrow> render_children R E w td src_relpath rest st1)"
| "render_children R E w td src_relpath (SDir name children # rest) st =
     (case render_folder R E w td (src_relpath @ [name]) (Inr children) st of
        (Some e, st1) \<Rightarrow> (Some e, st1)
      | (None, st1) \<Rightarrow> render_children R E w td src_relpath rest st1)"
  by pat_completeness auto
termination
  by (relation "measure (\<lambda>x. case x of
        Inl (R, E, w, td, rel, listing, st) \<Rightarrow>
          (case listing of Inl e \<Rightarrow> 0 | Inr children \<Rightarrow> Suc (size_list size children))
      | Inr (R, E, w, td, rel, children, st) \<Rightarrow> size_list size children)") auto

section \<open>Worker: tasks and the copy\<close>

fun render_argv :: "(string \<Rightarrow> error + string) \<Rightarrow> string list \<Rightarrow> error + string list" where
  "render_argv rs [] = Inr []"
| "render_argv rs (part # rest) =
     (case rs part of
        Inl e \<Rightarrow> Inl e
      | Inr p \<Rightarrow> (case render_argv rs rest of Inl e \<Rightarrow> Inl e | Inr ps \<Rightarrow> Inr (p # ps)))"

definition render_task :: "renderer \<Rightarrow> task_cmd \<Rightarrow> error + task_cmd" where
  "render_task R c =
     (case c of
        Shell s \<Rightarrow> (case rstring R s of Inl e \<Rightarrow> Inl e | Inr s' \<Rightarrow> Inr (Shell s'))
      | Argv ps \<Rightarrow> (case render_argv (rstring R) ps of Inl e \<Rightarrow> Inl e | Inr ps' \<Rightarrow> Inr (Argv ps')))"

text \<open>
  \<open>_execute_tasks\<close>: every task is rendered, then run in the destination with its
  \<open>extra_env\<close> added to the environment; \<open>check=True\<close> raises on a failing process.
\<close>

fun execute_tasks ::
  "renderer \<Rightarrow> env \<Rightarrow> (task_cmd \<times> (string \<times> string) list) list \<Rightarrow> state \<Rightarrow> error option \<times> state" where
  "execute_tasks R E [] st = (None, st)"
| "execute_tasks R E ((task, extra_env) # rest) st =
     (case render_task R task of
        Inl e \<Rightarrow> (Some e, st)
      | Inr task_cmd \<Rightarrow>
          (case subprocess_run E task_cmd extra_env (dst st) of
             Inl e \<Rightarrow> (Some e, st\<lparr>executed := executed st @ [(task_cmd, extra_env)]\<rparr>)
           | Inr f \<Rightarrow>
               execute_tasks R E rest
                 (st\<lparr>dst := f, executed := executed st @ [(task_cmd, extra_env)]\<rparr>)))"

text \<open>The listing of the folder at a relative path of the template's tree.\<close>

fun find_dir :: "src_node list \<Rightarrow> string \<Rightarrow> error + src_node list" where
  "find_dir [] name = Inl FileNotFoundError"
| "find_dir (SFile n c # rest) name = (if n = name then Inl NotADirectoryError else find_dir rest name)"
| "find_dir (SDir n children # rest) name = (if n = name then Inr children else find_dir rest name)"

fun iterdir :: "src_node list \<Rightarrow> string list \<Rightarrow> error + src_node list" where
  "iterdir root [] = Inr root"
| "iterdir root (name # rest) =
     (case find_dir root name of Inl e \<Rightarrow> Inl e | Inr children \<Rightarrow> iterdir children rest)"

text \<open>
  \<open>run_copy\<close> for a resolved template, and \<open>run_copy\<close> as the source has it. A
  \<open>subdirectory\<close> that is an absolute path is taken to lie outside the template, where
  \<open>relative_to\<close> raises \<open>ValueError\<close>.
\<close>

definition run_copy_with :: "renderer \<Rightarrow> env \<Rightarrow> Worker \<Rightarrow> template_data \<Rightarrow> state \<Rightarrow> error option \<times> state" where
  "run_copy_with R E w td st =
     (let src_relpath = (case subdirectory w of None \<Rightarrow> [] | Some s \<Rightarrow> components s)
      in if (case subdirectory w of None \<Rightarrow> False | Some s \<Rightarrow> startswith s ''/'')
         then (Some ValueError, st)
         else (case render_folder R E w td src_relpath (iterdir (tree td) src_relpath) st of
                 (Some e, st1) \<Rightarrow> (Some e, st1)
               | (None, st1) \<Rightarrow>
                   execute_tasks R E (map (\<lambda>t. (t, [(''STAGE'', ''task'')])) (tasks td)) st1))"

definition run_copy :: "env \<Rightarrow> Worker \<Rightarrow> state \<Rightarrow> error option \<times> state" where
  "run_copy E w st =
     (case Worker_template E (dst st) w of
        Inl e \<Rightarrow> (Some e, st)
      | Inr t \<Rightarrow> run_copy_with (Worker_renderer E (dst st) w) E w (load_template E t) st)"

section \<open>The destinations of a template's tree\<close>

text \<open>
  The destination paths that the nodes of a source folder render to: the only places
  where rendering the folder can change the destination.
\<close>

definition target_of :: "renderer \<Rightarrow> string \<Rightarrow> string list \<Rightarrow> string list list" where
  "target_of R sfx src_relpath =
     (case render_path R sfx src_relpath of Inr (Some d) \<Rightarrow> [parts d] | _ \<Rightarrow> [])"



text \<open>The destination paths that the files among these nodes render to.\<close>

fun file_targets :: "renderer \<Rightarrow> string \<Rightarrow> string list \<Rightarrow> src_node \<Rightarrow> string list list" where
  "file_targets R sfx rel (SFile name content) = target_of R sfx (rel @ [name])"
| "file_targets R sfx rel (SDir name children) =
     concat (map (file_targets R sfx (rel @ [name])) children)"

section \<open>AnswersMap in a store\<close>

text \<open>
  Dictionaries and lists are mutable objects, and two names can share one. For what
  the construction of an \<open>AnswersMap\<close> copies, values are modelled as Python passes
  them: an immutable value, or a reference to a dictionary or a list in a store. An
  address is an index of the store, and a new object is appended to it.
\<close>

datatype pv = PNone | PBool bool | PInt int | PStr string | PFun nat | PRef nat

datatype obj = ODict "(string \<times> pv) list" | OList "pv list"

type_synonym store = "obj list"

fun obj_vals :: "obj \<Rightarrow> pv list" where
  "obj_vals (ODict kvs) = map snd kvs"
| "obj_vals (OList xs) = xs"

fun obj_with :: "obj \<Rightarrow> pv list \<Rightarrow> obj" where
  "obj_with (ODict kvs) ys = ODict (zip (map fst kvs) ys)"
| "obj_with (OList xs) ys = OList ys"

text \<open>
  \<open>copy.deepcopy(x, memo)\<close>: an immutable value is returned as it is; an object that
  the memo knows is answered from the memo; any other object gets a new, empty copy,
  which the memo records before the items are copied into it, one after the other.
  The first argument bounds the depth of the recursion; \<open>None\<close> is the result when
  the bound is reached, or when a reference points outside the store.
\<close>

fun deepcopy :: "nat \<Rightarrow> pv \<Rightarrow> (nat \<times> nat) list \<times> store \<Rightarrow> (pv \<times> (nat \<times> nat) list \<times> store) option"
and deepcopy_all :: "nat \<Rightarrow> pv list \<Rightarrow> (nat \<times> nat) list \<times> store \<Rightarrow> (pv list \<times> (nat \<times> nat) list \<times> store) option" where
  "deepcopy 0 v ms = None"
| "deepcopy (Suc n) (PRef a) (memo, h) =
     (case map_of memo a of
        Some a' \<Rightarrow> Some (PRef a', memo, h)
      | None \<Rightarrow>
          (if length h \<le> a then None
           else (case deepcopy_all n (obj_vals (h ! a))
                        ((a, length h) # memo, h @ [obj_with (h ! a) []]) of
                   None \<Rightarrow> None
                 | Some (ys, memo', h') \<Rightarrow>
                     Some (PRef (length h), memo', h'[length h := obj_with (h ! a) ys]))))"
| "deepcopy (Suc n) v (memo, h) = Some (v, memo, h)"
| "deepcopy_all n [] ms = Some ([], ms)"
| "deepcopy_all n (x # xs) ms =
     (case deepcopy n x ms of
        None \<Rightarrow> None
      | Some (y, ms1) \<Rightarrow>
          (case deepcopy_all n xs ms1 of
             None \<Rightarrow> None
           | Some (ys, ms2) \<Rightarrow> Some (y # ys, ms2)))"

text \<open>
  The validator \<open>_deep_copy_answers\<close> runs on each item of a layer
  (\<open>each_item=True\<close>): \<open>deepcopy(v)\<close>, with a memo of its own. No object of the store
  is nested deeper than the store is long.
\<close>

fun copy_items :: "store \<Rightarrow> (string \<times> pv) list \<Rightarrow> ((string \<times> pv) list \<times> store) option" where
  "copy_items h [] = Some ([], h)"
| "copy_items h ((k, v) # kvs) =
     (case deepcopy (Suc (length h)) v ([], h) of
        None \<Rightarrow> None
      | Some (v', memo, h1) \<Rightarrow>
          (case copy_items h1 kvs of
             None \<Rightarrow> None
           | Some (kvs', h2) \<Rightarrow> Some ((k, v') # kvs', h2)))"

text \<open>
  One layer of the constructor: a layer that is not given is a new empty dictionary
  (\<open>default_factory=dict\<close>); one that is given must be a dictionary, and pydantic
  collects its validated items in a new dictionary. The result is the address of
  that dictionary.
\<close>

definition copy_layer :: "store \<Rightarrow> pv option \<Rightarrow> (error + nat \<times> store) option" where
  "copy_layer h given =
     (case given of
        None \<Rightarrow> Some (Inr (length h, h @ [ODict []]))
      | Some (PRef a) \<Rightarrow>
          (if length h \<le> a then None
           else (case h ! a of
                   ODict kvs \<Rightarrow>
                     (case copy_items h kvs of
                        None \<Rightarrow> None
                      | Some (kvs', h') \<Rightarrow> Some (Inr (length h', h' @ [ODict kvs'])))
                 | OList xs \<Rightarrow> Some (Inl ValidationError)))
      | Some _ \<Rightarrow> Some (Inl ValidationError))"

record AnswersMap_ref =
  r_init :: nat
  r_user :: nat
  r_last :: nat
  r_default :: nat
  r_local :: nat

text \<open>\<open>AnswersMap(init=..., user=..., last=..., default=...)\<close>, field by field.\<close>

definition AnswersMap_new ::
  "store \<Rightarrow> pv option \<Rightarrow> pv option \<Rightarrow> pv option \<Rightarrow> pv option
     \<Rightarrow> (error + AnswersMap_ref \<times> store) option" where
  "AnswersMap_new h i u l d =
     (case copy_layer h i of
        None \<Rightarrow> None
      | Some (Inl e) \<Rightarrow> Some (Inl e)
      | Some (Inr (ai, h1)) \<Rightarrow>
     (case copy_layer h1 u of
        None \<Rightarrow> None
      | Some (Inl e) \<Rightarrow> Some (Inl e)
      | Some (Inr (au, h2)) \<Rightarrow>
     (case copy_layer h2 l of
        None \<Rightarrow> None
      | Some (Inl e) \<Rightarrow> Some (Inl e)
      | Some (Inr (al, h3)) \<Rightarrow>
     (case copy_layer h3 d of
        None \<Rightarrow> None
      | Some (Inl e) \<Rightarrow> Some (Inl e)
      | Some (Inr (ad, h4)) \<Rightarrow>
          Some (Inr (\<lparr>r_init = ai, r_user = au, r_last = al, r_default = ad,
                      r_local = length h4\<rparr>, h4 @ [ODict []]))))))"

text \<open>The layers of an instance as the store has them now, and its \<open>combined\<close>.\<close>

definition layer :: "store \<Rightarrow> nat \<Rightarrow> pv pydict" where
  "layer h a = (if a < length h then (case h ! a of ODict kvs \<Rightarrow> kvs | OList xs \<Rightarrow> []) else [])"

definition deref_answers :: "store \<Rightarrow> AnswersMap_ref \<Rightarrow> pv AnswersMap" where
  "deref_answers h r =
     \<lparr>am_init = layer h (r_init r), am_user = layer h (r_user r), am_last = layer h (r_last r),
      am_default = layer h (r_default r), am_local = layer h (r_local r)\<rparr>"

text \<open>
  Reading a value out of the store, down to a given depth: what a reader of the value
  sees. \<open>None\<close> when the value goes deeper.
\<close>

fun reify :: "nat \<Rightarrow> store \<Rightarrow> pv \<Rightarrow> val option"
and reify_all :: "nat \<Rightarrow> store \<Rightarrow> pv list \<Rightarrow> val list option" where
  "reify 0 h v = None"
| "reify (Suc n) h PNone = Some VNone"
| "reify (Suc n) h (PBool b) = Some (VBool b)"
| "reify (Suc n) h (PInt i) = Some (VInt i)"
| "reify (Suc n) h (PStr s) = Some (VStr s)"
| "reify (Suc n) h (PFun k) = Some (VObj k)"
| "reify (Suc n) h (PRef a) =
     (if length h \<le> a then None
      else (case h ! a of
              ODict kvs \<Rightarrow> map_option (\<lambda>ys. VDict (zip (map fst kvs) ys)) (reify_all n h (map snd kvs))
            | OList xs \<Rightarrow> map_option VList (reify_all n h xs)))"
| "reify_all n h [] = Some []"
| "reify_all n h (x # xs) =
     (case reify n h x of
        None \<Rightarrow> None
      | Some y \<Rightarrow> (case reify_all n h xs of None \<Rightarrow> None | Some ys \<Rightarrow> Some (y # ys)))"

text \<open>
  An object refers only to addresses within bounds; the objects from an address on
  refer only to objects from that address on.
\<close>

definition refs_ok :: "nat \<Rightarrow> nat \<Rightarrow> pv \<Rightarrow> bool" where
  "refs_ok lo hi v = (case v of PRef a \<Rightarrow> lo \<le> a \<and> a < hi | _ \<Rightarrow> True)"

definition closed_from :: "nat \<Rightarrow> store \<Rightarrow> bool" where
  "closed_from lo h =
     list_all (\<lambda>a. list_all (refs_ok lo (length h)) (obj_vals (h ! a))) [lo ..< length h]"

text \<open>
  What the copying maintains, for the proofs: the memo points at new objects only, and
  the store's length covers every address in it; the objects that were there before a
  copy refer among themselves; a value given to the constructor refers into the store.
\<close>

definition copy_inv :: "nat \<Rightarrow> (nat \<times> nat) list \<times> store \<Rightarrow> bool" where
  "copy_inv lo ms =
     (lo \<le> length (snd ms) \<and> closed_from lo (snd ms)
      \<and> list_all (\<lambda>(a, b). lo \<le> b \<and> b < length (snd ms)) (fst ms))"

definition old_ok :: "nat \<Rightarrow> store \<Rightarrow> bool" where
  "old_ok n0 h = (n0 \<le> length h \<and> (\<forall>a < n0. list_all (refs_ok 0 n0) (obj_vals (h ! a))))"

definition given_ok :: "store \<Rightarrow> pv option \<Rightarrow> bool" where
  "given_ok h g = (case g of None \<Rightarrow> True | Some v \<Rightarrow> refs_ok 0 (length h) v)"

text \<open>
  A layer as it is stored, against the value that was given for it: not given, the
  layer is empty; given, the stored dictionary reads as the given one did in the store
  of that time.
\<close>

definition stored :: "nat \<Rightarrow> store \<Rightarrow> store \<Rightarrow> pv option \<Rightarrow> nat \<Rightarrow> bool" where
  "stored n h h' given a =
     (case given of
        None \<Rightarrow> layer h' a = []
      | Some v \<Rightarrow> reify n h' (PRef a) = reify n h v)"

text \<open>
  For the proof that a copy reads as its original: a store that has grown and changed
  no object; a memo that has grown; a reference seen through the memo; and what holds
  of the memo while a copy runs, where the objects in \<open>opn\<close> are the copies still
  being filled.
\<close>

definition extends :: "store \<Rightarrow> store \<Rightarrow> bool" where
  "extends h h' = (length h \<le> length h' \<and> (\<forall>b < length h. h' ! b = h ! b))"

definition memo_ext :: "(nat \<times> nat) list \<Rightarrow> (nat \<times> nat) list \<Rightarrow> bool" where
  "memo_ext m m' = (\<forall>a a'. map_of m a = Some a' \<longrightarrow> map_of m' a = Some a')"

definition tr :: "(nat \<times> nat) list \<Rightarrow> pv \<Rightarrow> pv" where
  "tr m v = (case v of PRef a \<Rightarrow> (case map_of m a of Some a' \<Rightarrow> PRef a' | None \<Rightarrow> v) | _ \<Rightarrow> v)"

definition in_memo :: "(nat \<times> nat) list \<Rightarrow> pv \<Rightarrow> bool" where
  "in_memo m v = (case v of PRef a \<Rightarrow> map_of m a \<noteq> None | _ \<Rightarrow> True)"

definition complete :: "store \<Rightarrow> (nat \<times> nat) list \<Rightarrow> store \<Rightarrow> nat \<Rightarrow> nat \<Rightarrow> bool" where
  "complete h0 m h a a' =
     (h ! a' = obj_with (h0 ! a) (map (tr m) (obj_vals (h0 ! a)))
      \<and> list_all (in_memo m) (obj_vals (h0 ! a)))"

definition sim_inv :: "store \<Rightarrow> nat set \<Rightarrow> (nat \<times> nat) list \<times> store \<Rightarrow> bool" where
  "sim_inv h0 opn ms =
     (length h0 \<le> length (snd ms)
      \<and> (\<forall>b < length h0. snd ms ! b = h0 ! b)
      \<and> closed_from 0 h0
      \<and> (\<forall>a a'. (a, a') \<in> set (fst ms) \<longrightarrow>
            a < length h0 \<and> length h0 \<le> a' \<and> a' < length (snd ms)
            \<and> map_of (fst ms) a = Some a'
            \<and> (\<forall>b. (b, a') \<in> set (fst ms) \<longrightarrow> b = a)
            \<and> (a \<in> opn \<or> complete h0 (fst ms) (snd ms) a a')))"

section \<open>Example inputs\<close>

text \<open>
  Simple stand-ins for the collaborators, for evaluating the definitions on concrete
  inputs: a matcher that matches a path equal to one of its patterns, an engine that
  renders text without template syntax to itself, a child process that succeeds and
  leaves the destination alone.
\<close>

definition example_env :: env where
  "example_env =
     \<lparr>DEFAULT_DATA = [(''now'', VObj 0), (''make_secret'', VObj 1)],
      DEFAULT_EXCLUDE = [''copier.yml'', ''.git''],
      DEFAULT_TEMPLATES_SUFFIX = ''.jinja'',
      JSONSerializable = (\<lambda>v. case v of VObj n \<Rightarrow> False | _ \<Rightarrow> True),
      yaml_safe_load = (\<lambda>s. if s = [] then Inr VNone else Inr (VDict [(''_src_path'', VStr s)])),
      str_validator = (\<lambda>v. case v of VStr s \<Rightarrow> Inr s | _ \<Rightarrow> Inl ValidationError),
      load_template = (\<lambda>t. \<lparr>commit = None, cfg_exclude = None, cfg_secret_questions = None,
         cfg_tasks = None, cfg_templates_suffix = None, questions_data = [],
         local_path_is_absolute = True, tree = []\<rparr>),
      normalize = (\<lambda>form s. s),
      match_file = (\<lambda>pats p. list_ex (\<lambda>pat. components pat = parts p) pats),
      create_path_filter = (\<lambda>pats p. list_ex (\<lambda>pat. components pat = parts p) pats),
      from_string = (\<lambda>s. Inr (\<lambda>ctx. Inr s)),
      get_template = (\<lambda>rel. Inr (\<lambda>ctx. Inr ''rendered'')),
      subprocess_run = (\<lambda>cmd extra f. Inr f)\<rparr>"

definition plain_renderer :: renderer where
  "plain_renderer = \<lparr>rstring = Inr, rfile = (\<lambda>rel. Inr ''rendered'')\<rparr>"

definition example_worker :: Worker where
  "example_worker =
     \<lparr>answers_file = [''.copier-answers.yml''], cleanup_on_error = True, data = [],
      exclude = [], force = False, pretend = False, quiet = False, skip_if_exists = [],
      src_path = Some ''/tpl'', subdirectory = None, use_prereleases = False, vcs_ref = None\<rparr>"

definition example_answers :: "val AnswersMap" where
  "example_answers =
     \<lparr>am_init = [(''name'', VStr ''Alice''), (''lang'', VStr ''hs'')],
      am_user = [(''lang'', VStr ''py'')],
      am_last = [(''name'', VStr ''Bob''), (''year'', VInt 2020)],
      am_default = [(''name'', VStr ''World''), (''year'', VInt 0), (''colour'', VStr ''red'')],
      am_local = []\<rparr>"



text \<open>
  A store with a caller's \<open>data\<close> at address 0, holding a list, and the store and the
  instance after \<open>AnswersMap(init=data)\<close>.
\<close>

definition example_store :: store where
  "example_store = [ODict [(''name'', PStr ''Alice''), (''tags'', PRef 1)], OList [PStr ''x'']]"

definition example_store_after :: store where
  "example_store_after =
     [ODict [(''name'', PStr ''Alice''), (''tags'', PRef 1)], OList [PStr ''x''],
      OList [PStr ''x''], ODict [(''name'', PStr ''Alice''), (''tags'', PRef 2)],
      ODict [], ODict [], ODict [], ODict []]"

definition example_ref :: AnswersMap_ref where
  "example_ref = \<lparr>r_init = 3, r_user = 4, r_last = 5, r_default = 6, r_local = 7\<rparr>"

section \<open>Theorems\<close>




subsection \<open>AnswersMap: the combined view\<close>

lemma keys_dict_set: "fst ` set (dict_set d k v) = insert k (fst ` set d)"
proof (induction d)
  case Nil
  then show ?case by simp
next
  case (Cons a d)
  obtain k' v' where a: "a = (k', v')" by (cases a)
  show ?case
  proof (cases "k' = k")
    case True
    then show ?thesis by (simp add: a)
  next
    case False
    then show ?thesis using Cons.IH by (simp add: a insert_commute)
  qed
qed

lemma keys_dict_update:
  "fst ` set (dict_update d items) = fst ` set d \<union> fst ` set items"
  unfolding dict_update_def
proof (induction items arbitrary: d)
  case Nil
  then show ?case by simp
next
  case (Cons a items)
  obtain k v where a: "a = (k, v)" by (cases a)
  show ?case
    by (simp add: a Cons.IH keys_dict_set)
qed

lemma keys_fold_update:
  "fst ` set (foldl (\<lambda>d m. dict_update d (map (\<lambda>(k, v). (k, ())) m)) d0 ms)
     = fst ` set d0 \<union> (\<Union>m \<in> set ms. fst ` set m)"
proof (induction ms arbitrary: d0)
  case Nil
  then show ?case by simp
next
  case (Cons m ms)
  have "fst ` set (map (\<lambda>(k, v). (k, ())) m) = fst ` set m"
    by (induction m) auto
  then show ?case
    by (simp add: Cons.IH keys_dict_update Un_assoc)
qed

lemma ChainMap_keys_set:
  "set (ChainMap_keys maps) = (\<Union>m \<in> set maps. fst ` set m)"
  unfolding ChainMap_keys_def by (simp add: keys_fold_update)

lemma ChainMap_get_Cons_if:
  "ChainMap_get (m # ms) k = (if k \<in> fst ` set m then map_of m k else ChainMap_get ms k)"
proof (cases "map_of m k")
  case None
  then have "k \<notin> fst ` set m" by (simp add: map_of_eq_None_iff)
  then show ?thesis using None by simp
next
  case (Some v)
  then have "k \<in> fst ` set m" by (metis map_of_eq_None_iff option.distinct(1))
  then show ?thesis using Some by simp
qed

text \<open>
  C4. A lookup in \<open>combined\<close> gives the value of the first layer that has the key, in
  the order local, user, init, last, default, \<open>DEFAULT_DATA\<close>; the keys of
  \<open>combined\<close> are the keys of the layers, so a key that no layer has is not in it.
\<close>

theorem combined_precedence:
  "ChainMap_get (combined dd am) k =
     (if k \<in> fst ` set (am_local am) then map_of (am_local am) k
      else if k \<in> fst ` set (am_user am) then map_of (am_user am) k
      else if k \<in> fst ` set (am_init am) then map_of (am_init am) k
      else if k \<in> fst ` set (am_last am) then map_of (am_last am) k
      else if k \<in> fst ` set (am_default am) then map_of (am_default am) k
      else map_of dd k)
   \<and> (k \<in> set (ChainMap_keys (combined dd am)) \<longleftrightarrow>
        k \<in> fst ` set (am_local am) \<union> fst ` set (am_user am) \<union> fst ` set (am_init am)
          \<union> fst ` set (am_last am) \<union> fst ` set (am_default am) \<union> fst ` set dd)"
proof
  have last: "(if k \<in> fst ` set dd then map_of dd k else ChainMap_get [] k) = map_of dd k"
    by (auto simp: map_of_eq_None_iff [symmetric])
  show "ChainMap_get (combined dd am) k =
     (if k \<in> fst ` set (am_local am) then map_of (am_local am) k
      else if k \<in> fst ` set (am_user am) then map_of (am_user am) k
      else if k \<in> fst ` set (am_init am) then map_of (am_init am) k
      else if k \<in> fst ` set (am_last am) then map_of (am_last am) k
      else if k \<in> fst ` set (am_default am) then map_of (am_default am) k
      else map_of dd k)"
    unfolding combined_def by (simp only: ChainMap_get_Cons_if last)
  show "k \<in> set (ChainMap_keys (combined dd am)) \<longleftrightarrow>
        k \<in> fst ` set (am_local am) \<union> fst ` set (am_user am) \<union> fst ` set (am_init am)
          \<union> fst ` set (am_last am) \<union> fst ` set (am_default am) \<union> fst ` set dd"
    unfolding ChainMap_keys_set combined_def by simp
qed

theorem combined_precedence_witness:
  "ChainMap_get (combined [(''now'', VObj 0)] example_answers) ''lang'' = Some (VStr ''py'')
   \<and> ChainMap_get (combined [(''now'', VObj 0)] example_answers) ''name'' = Some (VStr ''Alice'')
   \<and> ChainMap_get (combined [(''now'', VObj 0)] example_answers) ''year'' = Some (VInt 2020)
   \<and> ChainMap_get (combined [(''now'', VObj 0)] example_answers) ''colour'' = Some (VStr ''red'')
   \<and> ChainMap_get (combined [(''now'', VObj 0)] example_answers) ''now'' = Some (VObj 0)
   \<and> ChainMap_get (combined [(''now'', VObj 0)] example_answers) ''other'' = None
   \<and> ''other'' \<notin> set (ChainMap_keys (combined [(''now'', VObj 0)] example_answers))"
  using combined_precedence [of "[(''now'', VObj 0)]" example_answers "''lang''"]
    combined_precedence [of "[(''now'', VObj 0)]" example_answers "''name''"]
    combined_precedence [of "[(''now'', VObj 0)]" example_answers "''year''"]
    combined_precedence [of "[(''now'', VObj 0)]" example_answers "''colour''"]
    combined_precedence [of "[(''now'', VObj 0)]" example_answers "''now''"]
    combined_precedence [of "[(''now'', VObj 0)]" example_answers "''other''"]
  by (simp add: example_answers_def)

subsection \<open>Subproject: an answers file that cannot be read\<close>




subsection \<open>The template of a worker\<close>





subsection \<open>The answers to remember\<close>

text \<open>
  \<open>remembered_spec\<close>: the mapping that \<open>_answers_to_remember\<close> builds is \<open>_commit\<close>
  (if there is one), \<open>_src_path\<close>, and then the filtered items of \<open>combined\<close>. The
  function returns \<open>None\<close> all the same, and with it every \<open>render_string\<close> of the
  source raises.
\<close>

lemma answers_to_remember_None:
  "answers_to_remember E f w = Inr v \<Longrightarrow> v = VNone"
  by (auto simp: answers_to_remember_def Let_def split: sum.splits)

text \<open>
  C2. \<open>_answers_to_remember\<close> evaluated: for a worker with \<open>src_path\<close> \<open>/tpl\<close> and a
  template without questions it returns \<open>None\<close>, while the mapping its body has built
  is \<open>{_src_path: /tpl}\<close>.
\<close>

theorem answers_to_remember_returns_None:
  "answers_to_remember example_env Map.empty example_worker = Inr VNone
   \<and> remembered example_env \<lparr>url = ''/tpl'', ref = None\<rparr>
        (load_template example_env \<lparr>url = ''/tpl'', ref = None\<rparr>)
        \<lparr>am_init = [], am_user = [], am_last = [], am_default = [], am_local = []\<rparr>
      = [(''_src_path'', VStr ''/tpl'')]"
  by (simp add: answers_to_remember_def Worker_template_def example_worker_def answers_def
        last_answers_def raw_answers_def read_text_def under_file_def subproject_def
        remembered_def example_env_def dict_update_def ChainMap_items_def ChainMap_keys_def
        combined_def List.map_filter_def startswith_def)

lemma dict_set_new: "k \<notin> fst ` set d \<Longrightarrow> dict_set d k v = d @ [(k, v)]"
  by (induction d) auto

lemma dict_update_append:
  "distinct (map fst items) \<Longrightarrow> fst ` set items \<inter> fst ` set d = {} \<Longrightarrow>
     dict_update d items = d @ items"
  unfolding dict_update_def
proof (induction items arbitrary: d)
  case Nil
  then show ?case by simp
next
  case (Cons kv items)
  obtain k v where kv: "kv = (k, v)" by (cases kv)
  have new: "k \<notin> fst ` set d" using Cons.prems(2) kv by auto
  have d1: "distinct (map fst items)" using Cons.prems(1) by simp
  have d2: "fst ` set items \<inter> fst ` set (d @ [(k, v)]) = {}"
    using Cons.prems kv by auto
  show ?case
    using Cons.IH [OF d1 d2] by (simp add: kv dict_set_new [OF new])
qed

lemma distinct_dict_set: "distinct (map fst d) \<Longrightarrow> distinct (map fst (dict_set d k v))"
proof (induction d)
  case Nil
  then show ?case by simp
next
  case (Cons a d)
  obtain k' v' where a: "a = (k', v')" by (cases a)
  show ?case
  proof (cases "k' = k")
    case True
    then show ?thesis using Cons.prems a by simp
  next
    case False
    have "k' \<notin> fst ` set (dict_set d k v)"
      using Cons.prems a False by (simp add: keys_dict_set)
    then show ?thesis using Cons a False by simp
  qed
qed

lemma distinct_dict_update:
  "distinct (map fst d) \<Longrightarrow> distinct (map fst (dict_update d items))"
  unfolding dict_update_def
proof (induction items arbitrary: d)
  case Nil
  then show ?case by simp
next
  case (Cons kv items)
  obtain k v where kv: "kv = (k, v)" by (cases kv)
  show ?case using Cons.IH [OF distinct_dict_set [OF Cons.prems]] by (simp add: kv)
qed

lemma distinct_fold_update:
  "distinct (map fst d0) \<Longrightarrow>
     distinct (map fst (foldl (\<lambda>d m. dict_update d (map (\<lambda>(k, v). (k, ())) m)) d0 ms))"
  by (induction ms arbitrary: d0) (simp_all add: distinct_dict_update)

lemma distinct_ChainMap_keys: "distinct (ChainMap_keys maps)"
  unfolding ChainMap_keys_def using distinct_fold_update [of "[]"] by simp

lemma map_fst_map_filter:
  "map fst (List.map_filter (\<lambda>k. map_option (Pair k) (g k)) ks) = filter (\<lambda>k. g k \<noteq> None) ks"
  by (induction ks) (auto simp: List.map_filter_def)

lemma distinct_ChainMap_items: "distinct (map fst (ChainMap_items maps))"
  unfolding ChainMap_items_def map_fst_map_filter
  by (rule distinct_filter) (rule distinct_ChainMap_keys)

lemma remembered_spec:
  "remembered E t td am =
     (case commit td of None \<Rightarrow> [] | Some c \<Rightarrow> [(''_commit'', VStr c)])
     @ [(''_src_path'', VStr (url t))]
     @ filter (\<lambda>(k, v). \<not> startswith k ''_''
                  \<and> k \<notin> set (secret_questions td)
                  \<and> JSONSerializable E (VStr k)
                  \<and> JSONSerializable E v)
         (ChainMap_items (combined (DEFAULT_DATA E) am))"
proof -
  let ?P = "\<lambda>(k, v). \<not> startswith k ''_'' \<and> k \<notin> set (secret_questions td)
                  \<and> JSONSerializable E (VStr k) \<and> JSONSerializable E v"
  let ?items = "filter ?P (ChainMap_items (combined (DEFAULT_DATA E) am))"
  let ?d0 = "(case commit td of None \<Rightarrow> [] | Some c \<Rightarrow> [(''_commit'', VStr c)])
             @ [(''_src_path'', VStr (url t))]"
  have d0: "foldl (\<lambda>d (key, v). case v of None \<Rightarrow> d | Some x \<Rightarrow> dict_set d key (VStr x)) []
              [(''_commit'', commit td), (''_src_path'', Some (url t))] = ?d0"
    by (cases "commit td") simp_all
  have dist: "distinct (map fst ?items)"
    by (rule distinct_map_filter) (rule distinct_ChainMap_items)
  have keys0: "fst ` set ?d0 \<subseteq> {''_commit'', ''_src_path''}"
    by (cases "commit td") simp_all
  have disj: "fst ` set ?items \<inter> fst ` set ?d0 = {}"
  proof (rule ccontr)
    assume "fst ` set ?items \<inter> fst ` set ?d0 \<noteq> {}"
    then obtain k where k1: "k \<in> fst ` set ?items" and k2: "k \<in> fst ` set ?d0" by blast
    from k1 obtain v where "(k, v) \<in> set ?items" by force
    then have no: "\<not> startswith k ''_''" by simp
    from k2 keys0 have "k = ''_commit'' \<or> k = ''_src_path''" by blast
    then have "startswith k ''_''" by (auto simp: startswith_def)
    with no show False by simp
  qed
  have "remembered E t td am = dict_update ?d0 ?items"
    unfolding remembered_def d0 ..
  also have "\<dots> = ?d0 @ ?items" using dist disj by (rule dict_update_append)
  finally show ?thesis by simp
qed

lemma render_context_raises: "\<exists>e. render_context E f w = Inl e"
proof (cases "answers_to_remember E f w")
  case (Inl e)
  then show ?thesis by (simp add: render_context_def)
next
  case (Inr v)
  then have "v = VNone" by (rule answers_to_remember_None)
  with Inr show ?thesis by (simp add: render_context_def)
qed

lemma render_string_raises: "\<exists>e. render_string E f w s = Inl e"
  using render_context_raises [of E f w]
  by (auto simp: render_string_def split: sum.splits)

subsection \<open>Exclusions\<close>

text \<open>
  Of the exclusions, the first pattern is the one that reaches the matcher: it denies a
  path it matches, and the others are not looked at.
\<close>

lemma path_matcher_first_only:
  "path_matcher E patterns =
     match_file E (case patterns of [] \<Rightarrow> [] | p # ps \<Rightarrow> [normalize E ''NFD'' p])"
  by (cases patterns) (simp_all add: path_matcher_def)

lemma first_exclusion_denies:
  assumes "\<not> is_absolute d" and "\<not> (expected \<noteq> [] \<and> is_dir)"
    and "all_exclusions E w td = p # ps" and "match_file E [normalize E ''NFD'' p] d"
  shows "render_allowed E w td d is_dir expected st = (Inr False, st)"
  using assms by (simp add: render_allowed_def path_matcher_def)


subsection \<open>render_path\<close>

text \<open>
  \<open>render_path_spec\<close>: on a path with at least one part, with a templates suffix that
  is not empty and an engine that raises on no part, \<open>render_path\<close> is \<open>None\<close> exactly
  when a part renders empty, and otherwise the path of the rendered parts with the
  suffix cut off the last one.
\<close>

text \<open>
  C5. \<open>render_path\<close> evaluated: on the path without parts (\<open>Path('.')\<close>, what
  \<open>render_folder\<close> passes for the template's root) it raises \<open>IndexError\<close>; with the
  empty templates suffix it turns \<open>a.txt\<close> into the empty path.
\<close>

theorem render_path_root_IndexError:
  "render_path R sfx [] = Inl IndexError
   \<and> render_path plain_renderer [] [''a.txt''] = Inr (Some (Path False []))"
  by (simp add: render_path_def plain_renderer_def endswith_def slice_upto_neg_def Path_of_def
        joinpath_def startswith_def components_def)

lemma render_parts_spec:
  assumes "\<forall>p \<in> set relpath. \<exists>s. rs p = Inr s"
  shows "render_parts rs relpath =
           (if \<exists>p \<in> set relpath. rs p = Inr [] then Inr None
            else Inr (Some (map (\<lambda>p. projr (rs p)) relpath)))"
  using assms
proof (induction relpath)
  case Nil
  then show ?case by simp
next
  case (Cons part rest)
  obtain s where s: "rs part = Inr s" using Cons.prems by auto
  have rest: "\<forall>p \<in> set rest. \<exists>s. rs p = Inr s" using Cons.prems by simp
  show ?case
  proof (cases "s = []")
    case True
    then show ?thesis using s by simp
  next
    case False
    then show ?thesis using s Cons.IH [OF rest] by auto
  qed
qed

lemma render_path_spec:
  assumes "relpath \<noteq> []" and "sfx \<noteq> []"
    and "\<forall>p \<in> set relpath. \<exists>s. rstring R p = Inr s"
  shows "render_path R sfx relpath =
           (if \<exists>p \<in> set relpath. rstring R p = Inr [] then Inr None
            else Inr (Some (Path_of
                   (if endswith (last (map (\<lambda>p. projr (rstring R p)) relpath)) sfx
                    then butlast (map (\<lambda>p. projr (rstring R p)) relpath)
                         @ [take (length (last (map (\<lambda>p. projr (rstring R p)) relpath)) - length sfx)
                              (last (map (\<lambda>p. projr (rstring R p)) relpath))]
                    else map (\<lambda>p. projr (rstring R p)) relpath))))"
  using assms(1,2) render_parts_spec [OF assms(3)]
  by (simp add: render_path_def slice_upto_neg_def)

subsection \<open>What rendering changes\<close>

text \<open>
  \<open>_render_allowed\<close> changes no file and does not read \<open>pretend\<close>; rendering a
  folder changes the destination only at the paths that its nodes render to, and starts
  no process.
\<close>

lemma solve_render_conflict_frame:
  "solve_render_conflict w d st = (r, st') \<Longrightarrow> dst st' = dst st \<and> executed st' = executed st"
  by (auto simp: solve_render_conflict_def split: if_splits list.splits)

lemma render_allowed_frame:
  assumes "render_allowed E w td d is_dir c st = (r, st')"
  shows "dst st' = dst st \<and> executed st' = executed st"
proof -
  have "st' = st \<or> solve_render_conflict w d st = (r, st')"
    using assms
    by (auto simp: render_allowed_def split: if_splits sum.splits error.splits)
  then show ?thesis using solve_render_conflict_frame by blast
qed

lemma solve_render_conflict_pretend:
  "solve_render_conflict (w\<lparr>pretend := b\<rparr>) d st = solve_render_conflict w d st"
  by (simp add: solve_render_conflict_def)

lemma all_exclusions_pretend:
  "all_exclusions E (w\<lparr>pretend := b\<rparr>) td = all_exclusions E w td"
  by (simp add: all_exclusions_def)

lemma render_allowed_pretend:
  "render_allowed E (w\<lparr>pretend := b\<rparr>) td d is_dir c st = render_allowed E w td d is_dir c st"
  unfolding render_allowed_def all_exclusions_pretend solve_render_conflict_pretend by simp

lemma write_text_frame: "write_text f p c = Inr f' \<Longrightarrow> q \<noteq> p \<Longrightarrow> f' q = f q"
  by (auto simp: write_text_def split: if_splits)


lemma render_file_frame:
  assumes "render_file R E w td src_relpath content st = (r, st')"
    and "p \<notin> set (target_of R (templates_suffix (DEFAULT_TEMPLATES_SUFFIX E) td) src_relpath)"
  shows "dst st' p = dst st p \<and> executed st' = executed st"
proof (cases "render_path R (templates_suffix (DEFAULT_TEMPLATES_SUFFIX E) td) src_relpath")
  case (Inl e)
  then show ?thesis using assms(1) by (auto simp: render_file_def split: if_splits)
next
  case (Inr od)
  show ?thesis
  proof (cases od)
    case None
    then show ?thesis using assms(1) Inr by (auto simp: render_file_def split: if_splits)
  next
    case (Some d)
    have ne: "p \<noteq> parts d" using assms(2) Inr Some by (simp add: target_of_def)
    show ?thesis
      using assms(1) Inr Some ne
      by (auto simp: render_file_def split: if_splits sum.splits prod.splits bool.splits
            dest: render_allowed_frame)
         (metis render_allowed_frame write_text_frame)+
  qed
qed



subsection \<open>A folder that is denied\<close>



subsection \<open>pretend\<close>

text \<open>
  \<open>pretend_creates_no_directory\<close>: with \<open>pretend\<close> set, rendering a folder changes
  the destination only where a file of the template renders to; no directory is made.
  The files are written.
\<close>


lemma pretend_creates_no_directory:
  "render_folder R E w td rel listing st = (r, st') \<Longrightarrow> pretend w \<Longrightarrow>
     p \<notin> set (case listing of Inl e \<Rightarrow> []
                | Inr cs \<Rightarrow> concat (map (file_targets R (templates_suffix (DEFAULT_TEMPLATES_SUFFIX E) td) rel) cs)) \<Longrightarrow>
     dst st' p = dst st p"
  "render_children R E w td rel cs st = (r, st') \<Longrightarrow> pretend w \<Longrightarrow>
     p \<notin> set (concat (map (file_targets R (templates_suffix (DEFAULT_TEMPLATES_SUFFIX E) td) rel) cs)) \<Longrightarrow>
     dst st' p = dst st p"
proof (induction R E w td rel listing st and R E w td rel cs st arbitrary: r st' and r st'
       rule: render_folder_render_children.induct)
  case (1 R E w td rel listing st)
  let ?sfx = "templates_suffix (DEFAULT_TEMPLATES_SUFFIX E) td"
  note run = "1.prems"(1) and pr = "1.prems"(2) and out = "1.prems"(3)
  show ?case
  proof (cases "local_path_is_absolute td")
    case False
    then show ?thesis using run by simp
  next
    case abs: True
    show ?thesis
    proof (cases "render_path R ?sfx rel")
      case (Inl e)
      then show ?thesis using run abs by simp
    next
      case (Inr od)
      show ?thesis
      proof (cases od)
        case None
        then show ?thesis using run abs Inr by simp
      next
        case (Some d)
        obtain x y where ra: "render_allowed E w td d True [] st = (x, y)"
          by (cases "render_allowed E w td d True [] st")
        have fy: "dst y = dst st"
          using render_allowed_frame [OF ra] by simp
        show ?thesis
        proof (cases x)
          case (Inl e)
          then show ?thesis using run abs Inr Some ra fy by simp
        next
          case xr: (Inr allowed)
          show ?thesis
          proof (cases allowed)
            case False
            then show ?thesis using run abs Inr Some ra xr fy by simp
          next
            case True
            have mk: "(if pretend w then Inr (dst y) else mkdir_exist_ok (dst y) (parts d))
                        = Inr (dst y)"
              using pr by simp
            show ?thesis
            proof (cases listing)
              case (Inl e)
              then show ?thesis using run abs Inr Some ra xr True pr fy by auto
            next
              case ls: (Inr children)
              have rc: "render_children R E w td rel children (y\<lparr>dst := dst y\<rparr>) = (r, st')"
                using run abs Inr Some ra xr True pr ls by simp
              have out': "p \<notin> set (concat (map (file_targets R ?sfx rel) children))"
                using out ls by simp
              have nn: "\<not> \<not> local_path_is_absolute td" using abs by simp
              have at: "allowed = True" using True by simp
              have "dst st' p = dst (y\<lparr>dst := dst y\<rparr>) p"
                by (rule "1.IH" [OF nn Inr Some ra [symmetric] xr at mk ls rc pr out'])
              then show ?thesis using fy by simp
            qed
          qed
        qed
      qed
    qed
  qed
next
  case (2 R E w td rel st)
  then show ?case by simp
next
  case (3 R E w td rel name content rest st)
  let ?sfx = "templates_suffix (DEFAULT_TEMPLATES_SUFFIX E) td"
  note run = "3.prems"(1) and pr = "3.prems"(2) and out = "3.prems"(3)
  obtain x y where rf: "render_file R E w td (rel @ [name]) content st = (x, y)"
    by (cases "render_file R E w td (rel @ [name]) content st")
  have "p \<notin> set (target_of R ?sfx (rel @ [name]))" using out by simp
  with rf have fy: "dst y p = dst st p"
    using render_file_frame by blast
  show ?case
  proof (cases x)
    case None
    have rc: "render_children R E w td rel rest y = (r, st')"
      using run rf None by simp
    have out': "p \<notin> set (concat (map (file_targets R ?sfx rel) rest))"
      using out by simp
    from "3.IH" [OF rf [symmetric] None rc pr out'] fy show ?thesis by simp
  next
    case (Some e)
    then show ?thesis using run rf fy by simp
  qed
next
  case (4 R E w td rel name children rest st)
  let ?sfx = "templates_suffix (DEFAULT_TEMPLATES_SUFFIX E) td"
  note run = "4.prems"(1) and pr = "4.prems"(2) and out = "4.prems"(3)
  obtain x y where rf: "render_folder R E w td (rel @ [name]) (Inr children) st = (x, y)"
    by (cases "render_folder R E w td (rel @ [name]) (Inr children) st")
  have "p \<notin> set (case Inr children of Inl e \<Rightarrow> []
                | Inr cs \<Rightarrow> concat (map (file_targets R ?sfx (rel @ [name])) cs))"
    using out by simp
  with rf pr have fy: "dst y p = dst st p"
    by (rule "4.IH"(1))
  show ?case
  proof (cases x)
    case None
    have rc: "render_children R E w td rel rest y = (r, st')"
      using run rf None by simp
    have out': "p \<notin> set (concat (map (file_targets R ?sfx rel) rest))"
      using out by simp
    from "4.IH"(2) [OF rf [symmetric] None rc pr out'] fy show ?thesis by simp
  next
    case (Some e)
    then show ?thesis using run rf fy by simp
  qed
qed

subsection \<open>The copy\<close>





subsection \<open>The copy with the renderer of the source\<close>

text \<open>
  As the source has it, \<open>run_copy\<close> raises on every input before it has changed
  anything: at the template's root \<open>render_path\<close> raises \<open>IndexError\<close>, and under a
  \<open>subdirectory\<close> the first \<open>render_string\<close> raises.
\<close>

lemma run_copy_with_Worker_renderer_raises:
  "\<exists>e. run_copy_with (Worker_renderer E f w) E w td st = (Some e, st)"
proof (cases "case subdirectory w of None \<Rightarrow> False | Some s \<Rightarrow> startswith s ''/''")
  case True
  then show ?thesis by (simp add: run_copy_with_def)
next
  case False
  let ?rel = "case subdirectory w of None \<Rightarrow> [] | Some s \<Rightarrow> components s"
  let ?sfx = "templates_suffix (DEFAULT_TEMPLATES_SUFFIX E) td"
  have rp: "\<exists>e. render_path (Worker_renderer E f w) ?sfx ?rel = Inl e"
  proof (cases ?rel)
    case Nil
    then show ?thesis by (simp add: render_path_def)
  next
    case (Cons part rest)
    obtain e where "render_string E f w part = Inl e"
      using render_string_raises by blast
    then show ?thesis using Cons by (simp add: render_path_def Worker_renderer_def)
  qed
  then obtain e where e: "render_path (Worker_renderer E f w) ?sfx ?rel = Inl e" by blast
  have "\<exists>e'. render_folder (Worker_renderer E f w) E w td ?rel (iterdir (tree td) ?rel) st
           = (Some e', st)"
    using e by (cases "local_path_is_absolute td") simp_all
  then show ?thesis using False by (auto simp: run_copy_with_def Let_def)
qed

lemma run_copy_raises: "\<exists>e. run_copy E w st = (Some e, st)"
proof (cases "Worker_template E (dst st) w")
  case (Inl e)
  then show ?thesis by (simp add: run_copy_def)
next
  case (Inr t)
  then show ?thesis
    using run_copy_with_Worker_renderer_raises [of E "dst st" w "load_template E t" st]
    by (simp add: run_copy_def)
qed

subsection \<open>The copies of an AnswersMap\<close>

lemma closed_from_iff:
  "closed_from lo h \<longleftrightarrow>
     (\<forall>a v. lo \<le> a \<longrightarrow> a < length h \<longrightarrow> v \<in> set (obj_vals (h ! a)) \<longrightarrow> refs_ok lo (length h) v)"
  by (auto simp: closed_from_def list_all_iff)

lemma refs_ok_mono: "refs_ok lo hi v \<Longrightarrow> hi \<le> hi' \<Longrightarrow> refs_ok lo hi' v"
  by (auto simp: refs_ok_def split: pv.splits)

lemma obj_vals_with_Nil [simp]: "obj_vals (obj_with ob []) = []"
  by (cases ob) simp_all

lemma obj_vals_with_subset: "set (obj_vals (obj_with ob ys)) \<subseteq> set ys"
proof (cases ob)
  case (ODict kvs)
  have "set (map snd (zip (map fst kvs) ys)) \<subseteq> set ys"
    by (metis map_snd_zip_take set_take_subset)
  then show ?thesis using ODict by simp
next
  case (OList xs)
  then show ?thesis by simp
qed

lemma copy_inv_alloc:
  assumes "copy_inv lo (memo, h)"
  shows "copy_inv lo ((a, length h) # memo, h @ [obj_with ob []])"
proof -
  have lo: "lo \<le> length h" and cl: "closed_from lo h"
    and mm: "list_all (\<lambda>(a, b). lo \<le> b \<and> b < length h) memo"
    using assms by (simp_all add: copy_inv_def)
  have cl': "closed_from lo (h @ [obj_with ob []])"
    unfolding closed_from_iff
  proof (intro allI impI)
    fix b v
    assume b: "lo \<le> b" "b < length (h @ [obj_with ob []])"
      and v: "v \<in> set (obj_vals ((h @ [obj_with ob []]) ! b))"
    show "refs_ok lo (length (h @ [obj_with ob []])) v"
    proof (cases "b < length h")
      case True
      then have "v \<in> set (obj_vals (h ! b))" using v by (simp add: nth_append)
      then have "refs_ok lo (length h) v" using cl b(1) True by (auto simp: closed_from_iff)
      then show ?thesis by (rule refs_ok_mono) simp
    next
      case False
      then have "b = length h" using b(2) by simp
      then show ?thesis using v by simp
    qed
  qed
  have mm': "list_all (\<lambda>(a, b). lo \<le> b \<and> b < length (h @ [obj_with ob []])) ((a, length h) # memo)"
    using mm lo by (auto simp: list_all_iff)
  show ?thesis using lo cl' mm' by (simp add: copy_inv_def)
qed

lemma copy_inv_fill:
  assumes inv: "copy_inv lo (memo, h)" and k: "lo \<le> k" "k < length h"
    and ys: "list_all (refs_ok lo (length h)) ys"
  shows "copy_inv lo (memo, h[k := obj_with ob ys])"
proof -
  have lo: "lo \<le> length h" and cl: "closed_from lo h"
    and mm: "list_all (\<lambda>(a, b). lo \<le> b \<and> b < length h) memo"
    using inv by (simp_all add: copy_inv_def)
  have cl': "closed_from lo (h[k := obj_with ob ys])"
    unfolding closed_from_iff
  proof (intro allI impI)
    fix b v
    assume b: "lo \<le> b" "b < length (h[k := obj_with ob ys])"
      and v: "v \<in> set (obj_vals ((h[k := obj_with ob ys]) ! b))"
    show "refs_ok lo (length (h[k := obj_with ob ys])) v"
    proof (cases "b = k")
      case True
      then have "v \<in> set ys" using v k obj_vals_with_subset by fastforce
      then show ?thesis using ys by (simp add: list_all_iff)
    next
      case False
      then have "v \<in> set (obj_vals (h ! b))" using v by simp
      then show ?thesis using cl b by (auto simp: closed_from_iff)
    qed
  qed
  show ?thesis using lo cl' mm by (simp add: copy_inv_def)
qed

lemma deepcopy_inv:
  "deepcopy n v ms = Some (v', ms') \<Longrightarrow> copy_inv lo ms \<Longrightarrow>
     copy_inv lo ms' \<and> length (snd ms) \<le> length (snd ms')
     \<and> refs_ok lo (length (snd ms')) v'
     \<and> (\<forall>b < length (snd ms). snd ms' ! b = snd ms ! b)"
  "deepcopy_all n xs ms = Some (ys, ms') \<Longrightarrow> copy_inv lo ms \<Longrightarrow>
     copy_inv lo ms' \<and> length (snd ms) \<le> length (snd ms')
     \<and> list_all (refs_ok lo (length (snd ms'))) ys
     \<and> (\<forall>b < length (snd ms). snd ms' ! b = snd ms ! b)"
proof (induction n v ms and n xs ms arbitrary: v' ms' and ys ms'
       rule: deepcopy_deepcopy_all.induct)
  case (1 v ms)
  then show ?case by simp
next
  case (2 n a memo h)
  note run = "2.prems"(1) and inv = "2.prems"(2)
  show ?case
  proof (cases "map_of memo a")
    case (Some a')
    then have res: "v' = PRef a'" "ms' = (memo, h)" using run by simp_all
    have "(a, a') \<in> set memo" using Some by (rule map_of_SomeD)
    then have "lo \<le> a' \<and> a' < length h"
      using inv by (auto simp: copy_inv_def list_all_iff)
    then show ?thesis using res inv by (simp add: refs_ok_def)
  next
    case None
    have a: "\<not> length h \<le> a" using run None by (auto split: if_splits)
    let ?ms0 = "((a, length h) # memo, h @ [obj_with (h ! a) []])"
    obtain ys m1 h1 where
      all: "deepcopy_all n (obj_vals (h ! a)) ?ms0 = Some (ys, m1, h1)"
      using run None a by (auto split: option.splits)
    have res: "v' = PRef (length h)" "ms' = (m1, h1[length h := obj_with (h ! a) ys])"
      using run None a all by simp_all
    have inv0: "copy_inv lo ?ms0" using inv by (rule copy_inv_alloc)
    from "2.IH" [OF None a all inv0]
    have inv1: "copy_inv lo (m1, h1)" and len: "length (h @ [obj_with (h ! a) []]) \<le> length h1"
      and ysok: "list_all (refs_ok lo (length h1)) ys"
      and same: "\<forall>b < length (h @ [obj_with (h ! a) []]). h1 ! b = (h @ [obj_with (h ! a) []]) ! b"
      by simp_all
    have lo: "lo \<le> length h" using inv by (simp add: copy_inv_def)
    have lt: "length h < length h1" using len by simp
    have inv2: "copy_inv lo (m1, h1[length h := obj_with (h ! a) ys])"
      using inv1 lo lt ysok by (rule copy_inv_fill)
    have same2: "\<forall>b < length h. (h1[length h := obj_with (h ! a) ys]) ! b = h ! b"
      using same by (simp add: nth_append)
    show ?thesis using res inv2 lt lo same2 by (simp add: refs_ok_def)
  qed
next
  case (5 n x xs ms)
  note run = "5.prems"(1) and inv = "5.prems"(2)
  obtain y ms1 where one: "deepcopy n x ms = Some (y, ms1)"
    using run by (auto split: option.splits)
  obtain ys' ms2 where rest: "deepcopy_all n xs ms1 = Some (ys', ms2)"
    using run one by (auto split: option.splits)
  have res: "ys = y # ys'" "ms' = ms2" using run one rest by simp_all
  from "5.IH"(1) [OF one inv]
  have inv1: "copy_inv lo ms1" and len1: "length (snd ms) \<le> length (snd ms1)"
    and yok: "refs_ok lo (length (snd ms1)) y"
    and same1: "\<forall>b < length (snd ms). snd ms1 ! b = snd ms ! b"
    by simp_all
  from "5.IH"(2) [OF one refl rest inv1]
  have inv2: "copy_inv lo ms2" and len2: "length (snd ms1) \<le> length (snd ms2)"
    and ysok: "list_all (refs_ok lo (length (snd ms2))) ys'"
    and same2: "\<forall>b < length (snd ms1). snd ms2 ! b = snd ms1 ! b"
    by simp_all
  have "refs_ok lo (length (snd ms2)) y" using yok len2 by (rule refs_ok_mono)
  then show ?case using res inv2 len1 len2 ysok same1 same2 by simp
qed (auto simp: refs_ok_def)

lemma reify_frame:
  "closed_from lo h1 \<Longrightarrow> length h1 \<le> length h2 \<Longrightarrow>
     (\<forall>a. lo \<le> a \<and> a < length h1 \<longrightarrow> h2 ! a = h1 ! a) \<Longrightarrow>
     refs_ok lo (length h1) v \<Longrightarrow> reify n h2 v = reify n h1 v"
  "closed_from lo h1 \<Longrightarrow> length h1 \<le> length h2 \<Longrightarrow>
     (\<forall>a. lo \<le> a \<and> a < length h1 \<longrightarrow> h2 ! a = h1 ! a) \<Longrightarrow>
     list_all (refs_ok lo (length h1)) vs \<Longrightarrow> reify_all n h2 vs = reify_all n h1 vs"
proof (induction n h1 v and n h1 vs rule: reify_reify_all.induct)
  case (7 n h a)
  have a: "lo \<le> a" "a < length h" using "7.prems"(4) by (simp_all add: refs_ok_def)
  have same: "h2 ! a = h ! a" using "7.prems"(3) a by simp
  have a2: "a < length h2" using a "7.prems"(2) by simp
  have vals: "list_all (refs_ok lo (length h)) (obj_vals (h ! a))"
    using "7.prems"(1) a by (auto simp: closed_from_iff list_all_iff)
  show ?case
  proof (cases "h ! a")
    case (ODict kvs)
    have "reify_all n h2 (map snd kvs) = reify_all n h (map snd kvs)"
      using "7.IH"(1) [OF _ ODict "7.prems"(1,2,3)] a vals ODict by simp
    then show ?thesis using a a2 same ODict by simp
  next
    case (OList xs)
    have "reify_all n h2 xs = reify_all n h xs"
      using "7.IH"(2) [OF _ OList "7.prems"(1,2,3)] a vals OList by simp
    then show ?thesis using a a2 same OList by simp
  qed
next
  case (9 n h x xs)
  have x: "refs_ok lo (length h) x" and xs: "list_all (refs_ok lo (length h)) xs"
    using "9.prems"(4) by simp_all
  have one: "reify n h2 x = reify n h x"
    using "9.IH"(1) [OF "9.prems"(1,2,3) x] .
  show ?case
  proof (cases "reify n h x")
    case None
    then show ?thesis using one by simp
  next
    case (Some y)
    have "reify_all n h2 xs = reify_all n h xs"
      using "9.IH"(2) [OF Some "9.prems"(1,2,3) xs] .
    then show ?thesis using one Some by simp
  qed
qed simp_all

lemma copy_items_inv:
  "copy_items h kvs = Some (kvs', h') \<Longrightarrow> lo \<le> length h \<Longrightarrow> closed_from lo h \<Longrightarrow>
     closed_from lo h' \<and> length h \<le> length h'
     \<and> list_all (refs_ok lo (length h')) (map snd kvs')
     \<and> map fst kvs' = map fst kvs
     \<and> (\<forall>b < length h. h' ! b = h ! b)"
proof (induction h kvs arbitrary: kvs' h' rule: copy_items.induct)
  case (1 h)
  then show ?case by simp
next
  case (2 h k v kvs)
  note run = "2.prems"(1) and lo = "2.prems"(2) and cl = "2.prems"(3)
  obtain v' memo h1 where one: "deepcopy (Suc (length h)) v ([], h) = Some (v', memo, h1)"
    using run by (auto split: option.splits)
  obtain kvs1 h2 where rest: "copy_items h1 kvs = Some (kvs1, h2)"
    using run one by (auto split: option.splits)
  have res: "kvs' = (k, v') # kvs1" "h' = h2" using run one rest by simp_all
  have inv0: "copy_inv lo ([], h)" using lo cl by (simp add: copy_inv_def)
  from deepcopy_inv(1) [OF one inv0]
  have inv1: "copy_inv lo (memo, h1)" and len1: "length h \<le> length h1"
    and vok: "refs_ok lo (length h1) v'" and same1: "\<forall>b < length h. h1 ! b = h ! b"
    by simp_all
  have lo1: "lo \<le> length h1" and cl1: "closed_from lo h1"
    using inv1 by (simp_all add: copy_inv_def)
  from "2.IH" [OF one refl refl rest lo1 cl1]
  have cl2: "closed_from lo h2" and len2: "length h1 \<le> length h2"
    and ok2: "list_all (refs_ok lo (length h2)) (map snd kvs1)"
    and keys: "map fst kvs1 = map fst kvs"
    and same2: "\<forall>b < length h1. h2 ! b = h1 ! b"
    by simp_all
  have "refs_ok lo (length h2) v'" using vok len2 by (rule refs_ok_mono)
  then show ?case using res cl2 len1 len2 ok2 keys same1 same2 by simp
qed

lemma closed_from_snoc:
  assumes "closed_from lo h" and "list_all (refs_ok lo (length h)) (obj_vals ob)"
  shows "closed_from lo (h @ [ob])"
  unfolding closed_from_iff
proof (intro allI impI)
  fix b v
  assume b: "lo \<le> b" "b < length (h @ [ob])" and v: "v \<in> set (obj_vals ((h @ [ob]) ! b))"
  have "refs_ok lo (length h) v"
  proof (cases "b < length h")
    case True
    then have "v \<in> set (obj_vals (h ! b))" using v by (simp add: nth_append)
    then show ?thesis using assms(1) b(1) True by (auto simp: closed_from_iff)
  next
    case False
    then have "b = length h" using b(2) by simp
    then show ?thesis using v assms(2) by (simp add: list_all_iff)
  qed
  then show "refs_ok lo (length (h @ [ob])) v" by (rule refs_ok_mono) simp
qed

lemma copy_layer_inv:
  assumes "copy_layer h given = Some (Inr (a, h'))" and "lo \<le> length h" and "closed_from lo h"
  shows "closed_from lo h' \<and> length h < length h' \<and> lo \<le> a \<and> a < length h'
       \<and> (\<forall>b < length h. h' ! b = h ! b)"
proof (cases given)
  case None
  then have res: "a = length h" "h' = h @ [ODict []]"
    using assms(1) by (simp_all add: copy_layer_def)
  have "closed_from lo (h @ [ODict []])"
    using assms(3) by (rule closed_from_snoc) simp
  then show ?thesis using res assms(2) by (simp add: nth_append)
next
  case (Some g)
  then obtain b where g: "g = PRef b"
    using assms(1) by (cases g) (simp_all add: copy_layer_def)
  have b: "\<not> length h \<le> b"
    using assms(1) Some g by (auto simp: copy_layer_def split: if_splits)
  then obtain kvs where ob: "h ! b = ODict kvs"
    using assms(1) Some g by (cases "h ! b") (simp_all add: copy_layer_def)
  obtain kvs' h1 where items: "copy_items h kvs = Some (kvs', h1)"
    using assms(1) Some g b ob by (auto simp: copy_layer_def split: option.splits)
  have res: "a = length h1" "h' = h1 @ [ODict kvs']"
    using assms(1) Some g b ob items by (simp_all add: copy_layer_def)
  from copy_items_inv [OF items assms(2,3)]
  have cl1: "closed_from lo h1" and len1: "length h \<le> length h1"
    and ok1: "list_all (refs_ok lo (length h1)) (map snd kvs')"
    and same1: "\<forall>b < length h. h1 ! b = h ! b"
    by simp_all
  have "closed_from lo (h1 @ [ODict kvs'])"
    using cl1 by (rule closed_from_snoc) (simp add: ok1)
  then show ?thesis using res len1 same1 assms(2) by (simp add: nth_append)
qed

lemma closed_from_top: "closed_from (length h) h"
  by (simp add: closed_from_def)

lemma AnswersMap_new_inv:
  assumes "AnswersMap_new h i u l d = Some (Inr (r, h'))"
  shows "closed_from (length h) h' \<and> length h < length h'
       \<and> list_all (\<lambda>a. length h \<le> a \<and> a < length h')
            [r_init r, r_user r, r_last r, r_default r, r_local r]"
proof -
  let ?lo = "length h"
  obtain ai h1 where c1: "copy_layer h i = Some (Inr (ai, h1))"
    using assms by (auto simp: AnswersMap_new_def split: option.splits sum.splits)
  obtain au h2 where c2: "copy_layer h1 u = Some (Inr (au, h2))"
    using assms c1 by (auto simp: AnswersMap_new_def split: option.splits sum.splits)
  obtain al h3 where c3: "copy_layer h2 l = Some (Inr (al, h3))"
    using assms c1 c2 by (auto simp: AnswersMap_new_def split: option.splits sum.splits)
  obtain ad h4 where c4: "copy_layer h3 d = Some (Inr (ad, h4))"
    using assms c1 c2 c3 by (auto simp: AnswersMap_new_def split: option.splits sum.splits)
  have res: "r = \<lparr>r_init = ai, r_user = au, r_last = al, r_default = ad, r_local = length h4\<rparr>"
      "h' = h4 @ [ODict []]"
    using assms c1 c2 c3 c4 by (simp_all add: AnswersMap_new_def)
  from copy_layer_inv [OF c1 le_refl closed_from_top]
  have i1: "closed_from ?lo h1" "length h < length h1" "?lo \<le> ai" "ai < length h1" by simp_all
  from copy_layer_inv [OF c2 _ i1(1)] i1(2)
  have i2: "closed_from ?lo h2" "length h1 < length h2" "?lo \<le> au" "au < length h2" by simp_all
  from copy_layer_inv [OF c3 _ i2(1)] i1(2) i2(2)
  have i3: "closed_from ?lo h3" "length h2 < length h3" "?lo \<le> al" "al < length h3" by simp_all
  from copy_layer_inv [OF c4 _ i3(1)] i1(2) i2(2) i3(2)
  have i4: "closed_from ?lo h4" "length h3 < length h4" "?lo \<le> ad" "ad < length h4" by simp_all
  have "closed_from ?lo (h4 @ [ODict []])"
    using i4(1) by (rule closed_from_snoc) simp
  then show ?thesis
    using res i1 i2 i3 i4 by simp
qed

lemma layer_vals_ok:
  assumes "closed_from lo h" and "lo \<le> a" and "a < length h"
  shows "list_all (refs_ok lo (length h)) (map snd (layer h a))"
proof -
  have "list_all (refs_ok lo (length h)) (obj_vals (h ! a))"
    using assms by (auto simp: closed_from_iff list_all_iff)
  then show ?thesis using assms(3) by (cases "h ! a") (simp_all add: layer_def)
qed

lemma ChainMap_get_in:
  "ChainMap_get maps k = Some v \<Longrightarrow> \<exists>m \<in> set maps. (k, v) \<in> set m"
  by (induction maps) (auto split: option.splits dest: map_of_SomeD)

lemma AnswersMap_isolated:
  assumes new: "AnswersMap_new h i u l d = Some (Inr (r, h1))"
    and len: "length h1 \<le> length h2"
    and keep: "\<forall>a. length h \<le> a \<and> a < length h1 \<longrightarrow> h2 ! a = h1 ! a"
    and dd: "list_all (\<lambda>(k, v). reify n h2 v = reify n h1 v) dd"
  shows "combined dd (deref_answers h2 r) = combined dd (deref_answers h1 r)
       \<and> map_option (reify n h2) (ChainMap_get (combined dd (deref_answers h2 r)) k)
         = map_option (reify n h1) (ChainMap_get (combined dd (deref_answers h1 r)) k)"
proof -
  let ?lo = "length h"
  from AnswersMap_new_inv [OF new]
  have cl: "closed_from ?lo h1"
    and addrs: "list_all (\<lambda>a. ?lo \<le> a \<and> a < length h1)
                  [r_init r, r_user r, r_last r, r_default r, r_local r]"
    by simp_all
  have same_layer: "layer h2 a = layer h1 a" if "?lo \<le> a" "a < length h1" for a
    using that keep len by (simp add: layer_def)
  have deref: "deref_answers h2 r = deref_answers h1 r"
    using addrs by (simp add: deref_answers_def same_layer)
  have view: "combined dd (deref_answers h2 r) = combined dd (deref_answers h1 r)"
    by (simp add: deref)
  have deep: "reify n h2 v = reify n h1 v"
    if look: "ChainMap_get (combined dd (deref_answers h1 r)) k = Some v" for v
  proof -
    from ChainMap_get_in [OF look] obtain m where
      m: "m \<in> set (combined dd (deref_answers h1 r))" and kv: "(k, v) \<in> set m"
      by blast
    show ?thesis
    proof (cases "m = dd")
      case True
      then show ?thesis using dd kv by (auto simp: list_all_iff)
    next
      case False
      then obtain a where a: "a \<in> set [r_init r, r_user r, r_last r, r_default r, r_local r]"
        and ma: "m = layer h1 a"
        using m by (auto simp: combined_def deref_answers_def)
      have ab: "?lo \<le> a" "a < length h1" using a addrs by (auto simp: list_all_iff)
      have "list_all (refs_ok ?lo (length h1)) (map snd (layer h1 a))"
        using cl ab by (rule layer_vals_ok)
      then have "refs_ok ?lo (length h1) v"
        using kv ma by (force simp: list_all_iff)
      with cl len keep show ?thesis by (rule reify_frame(1))
    qed
  qed
  have "map_option (reify n h2) (ChainMap_get (combined dd (deref_answers h2 r)) k)
         = map_option (reify n h1) (ChainMap_get (combined dd (deref_answers h1 r)) k)"
  proof (cases "ChainMap_get (combined dd (deref_answers h1 r)) k")
    case None
    then show ?thesis by (simp add: view)
  next
    case (Some v)
    then show ?thesis using deep [OF Some] by (simp add: view)
  qed
  with view show ?thesis by simp
qed

lemma example_new:
  "AnswersMap_new example_store (Some (PRef 0)) None None None
     = Some (Inr (example_ref, example_store_after))"
  by (simp add: AnswersMap_new_def copy_layer_def example_store_def example_store_after_def
        example_ref_def)

lemma old_ok_same:
  "old_ok n0 h \<Longrightarrow> length h \<le> length h' \<Longrightarrow> (\<forall>b < length h. h' ! b = h ! b) \<Longrightarrow> old_ok n0 h'"
  by (auto simp: old_ok_def)

lemma card_less_insert:
  assumes "a < (n0::nat)" and "a \<notin> K" and "card ({..<n0} - K) < Suc n"
  shows "card ({..<n0} - insert a K) < n"
proof -
  have fin: "finite ({..<n0} - K)" by simp
  have mem: "a \<in> {..<n0} - K" using assms(1,2) by simp
  have "{..<n0} - insert a K = ({..<n0} - K) - {a}" by auto
  then have "card ({..<n0} - insert a K) = card ({..<n0} - K) - 1"
    using mem fin by simp
  moreover have "card ({..<n0} - K) > 0" using mem fin by (auto simp: card_gt_0_iff)
  ultimately show ?thesis using assms(3) by simp
qed

lemma card_less_mono:
  assumes "K \<subseteq> K'" and "card ({..<(n0::nat)} - K) < n"
  shows "card ({..<n0} - K') < (n::nat)"
proof -
  have "{..<n0} - K' \<subseteq> {..<n0} - K" using assms(1) by auto
  then have "card ({..<n0} - K') \<le> card ({..<n0} - K)" by (simp add: card_mono)
  then show ?thesis using assms(2) by simp
qed

lemma deepcopy_returns:
  "old_ok n0 (snd ms) \<Longrightarrow> refs_ok 0 n0 v \<Longrightarrow> card ({..<n0} - fst ` set (fst ms)) < n \<Longrightarrow>
     \<exists>v' ms'. deepcopy n v ms = Some (v', ms') \<and> fst ` set (fst ms) \<subseteq> fst ` set (fst ms')
        \<and> length (snd ms) \<le> length (snd ms') \<and> (\<forall>b < length (snd ms). snd ms' ! b = snd ms ! b)"
  "old_ok n0 (snd ms) \<Longrightarrow> list_all (refs_ok 0 n0) xs \<Longrightarrow> card ({..<n0} - fst ` set (fst ms)) < n \<Longrightarrow>
     \<exists>ys ms'. deepcopy_all n xs ms = Some (ys, ms') \<and> fst ` set (fst ms) \<subseteq> fst ` set (fst ms')
        \<and> length (snd ms) \<le> length (snd ms') \<and> (\<forall>b < length (snd ms). snd ms' ! b = snd ms ! b)"
proof (induction n v ms and n xs ms rule: deepcopy_deepcopy_all.induct)
  case (1 v ms)
  then show ?case by simp
next
  case (2 n a memo h)
  have old: "old_ok n0 h" and a0: "a < n0" using "2.prems" by (simp_all add: refs_ok_def)
  have cd: "card ({..<n0} - fst ` set memo) < Suc n" using "2.prems"(3) by simp
  show ?case
  proof (cases "map_of memo a")
    case (Some a')
    then show ?thesis by simp
  next
    case None
    have al: "\<not> length h \<le> a" using a0 old by (simp add: old_ok_def)
    let ?ms0 = "((a, length h) # memo, h @ [obj_with (h ! a) []])"
    have nk: "a \<notin> fst ` set memo" using None by (simp add: map_of_eq_None_iff)
    have old0: "old_ok n0 (snd ?ms0)"
      using old by (rule old_ok_same) (simp_all add: nth_append)
    have kids: "list_all (refs_ok 0 n0) (obj_vals (h ! a))"
      using old a0 by (simp add: old_ok_def)
    have cd0: "card ({..<n0} - fst ` set (fst ?ms0)) < n"
      using card_less_insert [OF a0 nk cd] by simp
    from "2.IH" [OF None al old0 kids cd0]
    obtain ys m1 h1 where
      all: "deepcopy_all n (obj_vals (h ! a)) ?ms0 = Some (ys, m1, h1)"
      and keys: "fst ` set (fst ?ms0) \<subseteq> fst ` set m1"
      and len: "length (snd ?ms0) \<le> length h1"
      and same: "\<forall>b < length (snd ?ms0). h1 ! b = snd ?ms0 ! b"
      by auto
    have res: "deepcopy (Suc n) (PRef a) (memo, h)
                 = Some (PRef (length h), m1, h1[length h := obj_with (h ! a) ys])"
      using None al all by simp
    have k2: "fst ` set memo \<subseteq> fst ` set m1" using keys by auto
    have l2: "length h \<le> length (h1[length h := obj_with (h ! a) ys])" using len by simp
    have s2: "\<forall>b < length h. (h1[length h := obj_with (h ! a) ys]) ! b = h ! b"
      using same by (simp add: nth_append)
    show ?thesis using res k2 l2 s2 by simp
  qed
next
  case (5 n x xs ms)
  have old: "old_ok n0 (snd ms)" and x: "refs_ok 0 n0 x" and xs: "list_all (refs_ok 0 n0) xs"
    and cd: "card ({..<n0} - fst ` set (fst ms)) < n"
    using "5.prems" by simp_all
  from "5.IH"(1) [OF old x cd]
  obtain y ms1 where one: "deepcopy n x ms = Some (y, ms1)"
    and k1: "fst ` set (fst ms) \<subseteq> fst ` set (fst ms1)"
    and l1: "length (snd ms) \<le> length (snd ms1)"
    and s1: "\<forall>b < length (snd ms). snd ms1 ! b = snd ms ! b"
    by blast
  have old1: "old_ok n0 (snd ms1)" using old l1 s1 by (rule old_ok_same)
  have cd1: "card ({..<n0} - fst ` set (fst ms1)) < n" using k1 cd by (rule card_less_mono)
  from "5.IH"(2) [OF one refl old1 xs cd1]
  obtain ys ms2 where rest: "deepcopy_all n xs ms1 = Some (ys, ms2)"
    and k2: "fst ` set (fst ms1) \<subseteq> fst ` set (fst ms2)"
    and l2: "length (snd ms1) \<le> length (snd ms2)"
    and s2: "\<forall>b < length (snd ms1). snd ms2 ! b = snd ms1 ! b"
    by blast
  have "deepcopy_all n (x # xs) ms = Some (y # ys, ms2)" using one rest by simp
  then show ?case using k1 k2 l1 l2 s1 s2 by auto
qed auto

lemma closed_old_ok: "closed_from 0 h \<Longrightarrow> old_ok (length h) h"
  by (auto simp: old_ok_def closed_from_iff list_all_iff)

lemma copy_items_returns:
  "closed_from 0 h \<Longrightarrow> list_all (refs_ok 0 (length h)) (map snd kvs) \<Longrightarrow>
     \<exists>kvs' h'. copy_items h kvs = Some (kvs', h')"
proof (induction kvs arbitrary: h)
  case Nil
  then show ?case by simp
next
  case (Cons kv kvs)
  obtain k v where kv: "kv = (k, v)" by (cases kv)
  have v: "refs_ok 0 (length h) v" and rest: "list_all (refs_ok 0 (length h)) (map snd kvs)"
    using Cons.prems(2) kv by simp_all
  have old: "old_ok (length h) (snd ([] :: (nat \<times> nat) list, h))"
    using Cons.prems(1) by (simp add: closed_old_ok)
  have cd: "card ({..<length h} - fst ` set (fst ([] :: (nat \<times> nat) list, h))) < Suc (length h)"
    by simp
  from deepcopy_returns(1) [OF old v cd]
  obtain v' memo h1 where one: "deepcopy (Suc (length h)) v ([], h) = Some (v', memo, h1)"
    by auto
  have inv0: "copy_inv 0 ([], h)" using Cons.prems(1) by (simp add: copy_inv_def)
  from deepcopy_inv(1) [OF one inv0]
  have cl1: "closed_from 0 h1" and len1: "length h \<le> length h1"
    by (simp_all add: copy_inv_def)
  have rest1: "list_all (refs_ok 0 (length h1)) (map snd kvs)"
    using rest len1 by (auto simp: list_all_iff intro: refs_ok_mono)
  from Cons.IH [OF cl1 rest1] obtain kvs1 h2 where "copy_items h1 kvs = Some (kvs1, h2)"
    by blast
  then show ?case using kv one by simp
qed

lemma copy_layer_returns:
  assumes "closed_from 0 h" and "given_ok h g"
  shows "\<exists>res. copy_layer h g = Some res"
proof (cases g)
  case None
  then show ?thesis by (simp add: copy_layer_def)
next
  case (Some v)
  show ?thesis
  proof (cases v)
    case (PRef a)
    have a: "a < length h" using assms(2) Some PRef by (simp add: given_ok_def refs_ok_def)
    show ?thesis
    proof (cases "h ! a")
      case (ODict kvs)
      have "list_all (refs_ok 0 (length h)) (map snd kvs)"
        using assms(1) a ODict by (auto simp: closed_from_iff list_all_iff)
      from copy_items_returns [OF assms(1) this]
      obtain kvs' h' where "copy_items h kvs = Some (kvs', h')" by blast
      then show ?thesis using Some PRef a ODict by (simp add: copy_layer_def)
    next
      case (OList xs)
      then show ?thesis using Some PRef a by (simp add: copy_layer_def)
    qed
  qed (simp_all add: Some copy_layer_def)
qed

lemma copy_layer_keeps:
  assumes "copy_layer h g = Some (Inr (a, h'))" and "closed_from 0 h" and "given_ok h g'"
  shows "closed_from 0 h' \<and> given_ok h' g'"
proof -
  from copy_layer_inv [OF assms(1) _ assms(2)]
  have cl: "closed_from 0 h'" and len: "length h < length h'" by simp_all
  have "given_ok h' g'"
    using assms(3) len by (auto simp: given_ok_def split: option.splits intro: refs_ok_mono)
  with cl show ?thesis by simp
qed

lemma AnswersMap_new_returns:
  assumes cl: "closed_from 0 h"
    and ok: "given_ok h i" "given_ok h u" "given_ok h l" "given_ok h d"
  shows "\<exists>res. AnswersMap_new h i u l d = Some res"
proof -
  from copy_layer_returns [OF cl ok(1)] obtain r1 where c1: "copy_layer h i = Some r1" by blast
  show ?thesis
  proof (cases r1)
    case (Inl e)
    then show ?thesis using c1 by (simp add: AnswersMap_new_def)
  next
    case (Inr p1)
    obtain ai h1 where p1: "p1 = (ai, h1)" by (cases p1)
    have c1': "copy_layer h i = Some (Inr (ai, h1))" using c1 Inr p1 by simp
    have k1: "closed_from 0 h1" "given_ok h1 u" "given_ok h1 l" "given_ok h1 d"
      using copy_layer_keeps [OF c1' cl] ok by simp_all
    from copy_layer_returns [OF k1(1,2)] obtain r2 where c2: "copy_layer h1 u = Some r2" by blast
    show ?thesis
    proof (cases r2)
      case (Inl e)
      then show ?thesis using c1' c2 by (simp add: AnswersMap_new_def)
    next
      case (Inr p2)
      obtain au h2 where p2: "p2 = (au, h2)" by (cases p2)
      have c2': "copy_layer h1 u = Some (Inr (au, h2))" using c2 Inr p2 by simp
      have k2: "closed_from 0 h2" "given_ok h2 l" "given_ok h2 d"
        using copy_layer_keeps [OF c2' k1(1)] k1 by simp_all
      from copy_layer_returns [OF k2(1,2)] obtain r3 where c3: "copy_layer h2 l = Some r3" by blast
      show ?thesis
      proof (cases r3)
        case (Inl e)
        then show ?thesis using c1' c2' c3 by (simp add: AnswersMap_new_def)
      next
        case (Inr p3)
        obtain al h3 where p3: "p3 = (al, h3)" by (cases p3)
        have c3': "copy_layer h2 l = Some (Inr (al, h3))" using c3 Inr p3 by simp
        have k3: "closed_from 0 h3" "given_ok h3 d"
          using copy_layer_keeps [OF c3' k2(1)] k2 by simp_all
        from copy_layer_returns [OF k3] obtain r4 where c4: "copy_layer h3 d = Some r4" by blast
        show ?thesis
        proof (cases r4)
          case (Inl e)
          then show ?thesis using c1' c2' c3' c4 by (simp add: AnswersMap_new_def)
        next
          case (Inr p4)
          obtain ad h4 where p4: "p4 = (ad, h4)" by (cases p4)
          then show ?thesis using c1' c2' c3' c4 Inr by (simp add: AnswersMap_new_def)
        qed
      qed
    qed
  qed
qed

lemma memo_ext_refl: "memo_ext m m"
  by (simp add: memo_ext_def)

lemma memo_ext_trans: "memo_ext m m' \<Longrightarrow> memo_ext m' m'' \<Longrightarrow> memo_ext m m''"
  by (simp add: memo_ext_def)

lemma tr_memo_ext: "memo_ext m m' \<Longrightarrow> in_memo m v \<Longrightarrow> tr m' v = tr m v \<and> in_memo m' v"
  by (auto simp: memo_ext_def tr_def in_memo_def split: pv.splits option.splits)

lemma map_tr_memo_ext:
  "memo_ext m m' \<Longrightarrow> list_all (in_memo m) vs \<Longrightarrow>
     map (tr m') vs = map (tr m) vs \<and> list_all (in_memo m') vs"
  by (induction vs) (auto dest: tr_memo_ext)

lemma complete_memo_ext:
  assumes "complete h0 m h a a'" and "memo_ext m m'" and "h' ! a' = h ! a'"
  shows "complete h0 m' h' a a'"
proof -
  have kids: "list_all (in_memo m) (obj_vals (h0 ! a))"
    and obj: "h ! a' = obj_with (h0 ! a) (map (tr m) (obj_vals (h0 ! a)))"
    using assms(1) by (simp_all add: complete_def)
  from map_tr_memo_ext [OF assms(2) kids]
  have eq: "map (tr m') (obj_vals (h0 ! a)) = map (tr m) (obj_vals (h0 ! a))"
    and kids': "list_all (in_memo m') (obj_vals (h0 ! a))"
    by blast+
  have "h' ! a' = obj_with (h0 ! a) (map (tr m') (obj_vals (h0 ! a)))"
    using obj assms(3) by (simp only: eq)
  with kids' show ?thesis by (simp add: complete_def)
qed


lemma sim_invI:
  assumes "length h0 \<le> length h" and "\<And>b. b < length h0 \<Longrightarrow> h ! b = h0 ! b"
    and "closed_from 0 h0"
    and "\<And>a a'. (a, a') \<in> set m \<Longrightarrow>
           a < length h0 \<and> length h0 \<le> a' \<and> a' < length h \<and> map_of m a = Some a'
           \<and> (a \<in> opn \<or> complete h0 m h a a')"
    and "\<And>a a' b. (a, a') \<in> set m \<Longrightarrow> (b, a') \<in> set m \<Longrightarrow> b = a"
  shows "sim_inv h0 opn (m, h)"
  unfolding sim_inv_def using assms by (simp add: all_conj_distrib)

lemma sim_invD:
  assumes "sim_inv h0 opn (m, h)"
  shows "length h0 \<le> length h" and "\<And>b. b < length h0 \<Longrightarrow> h ! b = h0 ! b"
    and "closed_from 0 h0"
    and "\<And>a a'. (a, a') \<in> set m \<Longrightarrow>
           a < length h0 \<and> length h0 \<le> a' \<and> a' < length h \<and> map_of m a = Some a'
           \<and> (a \<in> opn \<or> complete h0 m h a a')"
    and "\<And>a a' b. (a, a') \<in> set m \<Longrightarrow> (b, a') \<in> set m \<Longrightarrow> b = a"
  using assms unfolding sim_inv_def by auto

lemma sim_inv_alloc:
  assumes inv: "sim_inv h0 opn (memo, h)" and a: "a < length h0" and new: "map_of memo a = None"
  shows "sim_inv h0 (insert a opn) ((a, length h) # memo, h @ [ob])"
    and "memo_ext memo ((a, length h) # memo)"
proof -
  show ext: "memo_ext memo ((a, length h) # memo)"
    using new by (auto simp: memo_ext_def)
  note d = sim_invD [OF inv]
  show "sim_inv h0 (insert a opn) ((a, length h) # memo, h @ [ob])"
  proof (rule sim_invI)
    show "length h0 \<le> length (h @ [ob])" using d(1) by simp
    show "\<And>b. b < length h0 \<Longrightarrow> (h @ [ob]) ! b = h0 ! b"
      using d(1,2) by (simp add: nth_append)
    show "closed_from 0 h0" by (rule d(3))
  next
    fix b b' assume "(b, b') \<in> set ((a, length h) # memo)"
    then have cases: "(b = a \<and> b' = length h) \<or> (b, b') \<in> set memo" by auto
    show "b < length h0 \<and> length h0 \<le> b' \<and> b' < length (h @ [ob])
            \<and> map_of ((a, length h) # memo) b = Some b'
            \<and> (b \<in> insert a opn \<or> complete h0 ((a, length h) # memo) (h @ [ob]) b b')"
    proof (cases "(b, b') \<in> set memo")
      case True
      note e = d(4) [OF True]
      have ne: "b \<noteq> a" using e new by auto
      have "(h @ [ob]) ! b' = h ! b'" using e by (simp add: nth_append)
      then have "b \<in> opn \<or> complete h0 ((a, length h) # memo) (h @ [ob]) b b'"
        using e ext complete_memo_ext by blast
      then show ?thesis using e ne by simp
    next
      case False
      then have "b = a \<and> b' = length h" using cases by simp
      then show ?thesis using a d(1) by simp
    qed
  next
    fix b b' c
    assume bb: "(b, b') \<in> set ((a, length h) # memo)"
      and cb: "(c, b') \<in> set ((a, length h) # memo)"
    have r: "\<And>x x'. (x, x') \<in> set memo \<Longrightarrow> x' < length h" using d(4) by blast
    show "c = b"
    proof (cases "b' = length h")
      case True
      then show ?thesis using bb cb r by fastforce
    next
      case False
      then have "(b, b') \<in> set memo" "(c, b') \<in> set memo" using bb cb by auto
      then show ?thesis using d(5) by blast
    qed
  qed
qed


lemma sim_inv_fill:
  assumes inv: "sim_inv h0 (insert a opn) (m1, h1)" and am: "map_of m1 a = Some k"
    and kids: "list_all (in_memo m1) (obj_vals (h0 ! a))"
  shows "sim_inv h0 opn (m1, h1[k := obj_with (h0 ! a) (map (tr m1) (obj_vals (h0 ! a)))])"
proof -
  let ?h2 = "h1[k := obj_with (h0 ! a) (map (tr m1) (obj_vals (h0 ! a)))]"
  note d = sim_invD [OF inv]
  have ak: "(a, k) \<in> set m1" using am by (rule map_of_SomeD)
  note ek = d(4) [OF ak]
  show ?thesis
  proof (rule sim_invI)
    show "length h0 \<le> length ?h2" using d(1) by simp
    show "\<And>b. b < length h0 \<Longrightarrow> ?h2 ! b = h0 ! b" using d(2) ek by simp
    show "closed_from 0 h0" by (rule d(3))
  next
    fix b b' assume bb: "(b, b') \<in> set m1"
    note e = d(4) [OF bb]
    have "b \<in> opn \<or> complete h0 m1 ?h2 b b'"
    proof (cases "b = a")
      case True
      then have "b' = k" using e am by simp
      then have "complete h0 m1 ?h2 b b'"
        using True ek kids by (simp add: complete_def)
      then show ?thesis ..
    next
      case False
      have "b' \<noteq> k" using d(5) [OF bb, of a] ak False by auto
      then have same: "?h2 ! b' = h1 ! b'" by simp
      from e False have "b \<in> opn \<or> complete h0 m1 h1 b b'" by simp
      then show ?thesis using complete_memo_ext [OF _ memo_ext_refl same] by blast
    qed
    then show "b < length h0 \<and> length h0 \<le> b' \<and> b' < length ?h2 \<and> map_of m1 b = Some b'
            \<and> (b \<in> opn \<or> complete h0 m1 ?h2 b b')"
      using e by simp
  next
    fix b b' c assume "(b, b') \<in> set m1" "(c, b') \<in> set m1"
    then show "c = b" using d(5) by blast
  qed
qed

lemma sim_inv_extend:
  assumes "sim_inv h0 opn (m, h)"
  shows "sim_inv h0 opn (m, h @ hs)"
proof -
  note d = sim_invD [OF assms]
  show ?thesis
  proof (rule sim_invI)
    show "length h0 \<le> length (h @ hs)" using d(1) by simp
    show "\<And>b. b < length h0 \<Longrightarrow> (h @ hs) ! b = h0 ! b" using d(1,2) by (simp add: nth_append)
    show "closed_from 0 h0" by (rule d(3))
  next
    fix b b' assume bb: "(b, b') \<in> set m"
    note e = d(4) [OF bb]
    have "(h @ hs) ! b' = h ! b'" using e by (simp add: nth_append)
    then have "b \<in> opn \<or> complete h0 m (h @ hs) b b'"
      using e complete_memo_ext [OF _ memo_ext_refl] by blast
    then show "b < length h0 \<and> length h0 \<le> b' \<and> b' < length (h @ hs) \<and> map_of m b = Some b'
            \<and> (b \<in> opn \<or> complete h0 m (h @ hs) b b')"
      using e by simp
  next
    fix b b' c assume "(b, b') \<in> set m" "(c, b') \<in> set m"
    then show "c = b" using d(5) by blast
  qed
qed

lemma deepcopy_sim:
  "deepcopy n v ms = Some (v', ms') \<Longrightarrow> sim_inv h0 opn ms \<Longrightarrow> refs_ok 0 (length h0) v \<Longrightarrow>
     sim_inv h0 opn ms' \<and> v' = tr (fst ms') v \<and> in_memo (fst ms') v
     \<and> memo_ext (fst ms) (fst ms')
     \<and> length (snd ms) \<le> length (snd ms') \<and> (\<forall>b < length (snd ms). snd ms' ! b = snd ms ! b)"
  "deepcopy_all n xs ms = Some (ys, ms') \<Longrightarrow> sim_inv h0 opn ms \<Longrightarrow>
     list_all (refs_ok 0 (length h0)) xs \<Longrightarrow>
     sim_inv h0 opn ms' \<and> ys = map (tr (fst ms')) xs \<and> list_all (in_memo (fst ms')) xs
     \<and> memo_ext (fst ms) (fst ms')
     \<and> length (snd ms) \<le> length (snd ms') \<and> (\<forall>b < length (snd ms). snd ms' ! b = snd ms ! b)"
proof (induction n v ms and n xs ms arbitrary: v' ms' opn and ys ms' opn
       rule: deepcopy_deepcopy_all.induct)
  case (1 v ms)
  then show ?case by simp
next
  case (2 n a memo h)
  note run = "2.prems"(1) and inv = "2.prems"(2) and ok = "2.prems"(3)
  note d = sim_invD [OF inv]
  have a0: "a < length h0" using ok by (simp add: refs_ok_def)
  show ?case
  proof (cases "map_of memo a")
    case (Some a')
    then have res: "v' = PRef a'" "ms' = (memo, h)" using run by simp_all
    show ?thesis using res inv Some by (simp add: tr_def in_memo_def memo_ext_refl)
  next
    case None
    have al: "\<not> length h \<le> a" using a0 d(1) by simp
    have ha: "h ! a = h0 ! a" using d(2) a0 by simp
    let ?ms0 = "((a, length h) # memo, h @ [obj_with (h ! a) []])"
    obtain ys m1 h1 where
      all: "deepcopy_all n (obj_vals (h ! a)) ?ms0 = Some (ys, m1, h1)"
      using run None al by (auto split: option.splits)
    have res: "v' = PRef (length h)" "ms' = (m1, h1[length h := obj_with (h ! a) ys])"
      using run None al all by simp_all
    have al0: "sim_inv h0 (insert a opn) ?ms0" "memo_ext memo ((a, length h) # memo)"
      using sim_inv_alloc [OF inv a0 None] by blast+
    have kids: "list_all (refs_ok 0 (length h0)) (obj_vals (h ! a))"
      using d(3) a0 ha by (auto simp: closed_from_iff list_all_iff)
    from "2.IH" [OF None al all al0(1) kids]
    have inv1: "sim_inv h0 (insert a opn) (m1, h1)"
      and ys: "ys = map (tr m1) (obj_vals (h ! a))"
      and im: "list_all (in_memo m1) (obj_vals (h ! a))"
      and ext1: "memo_ext ((a, length h) # memo) m1"
      and len1: "length (h @ [obj_with (h ! a) []]) \<le> length h1"
      and same1: "\<forall>b < length (h @ [obj_with (h ! a) []]). h1 ! b = (h @ [obj_with (h ! a) []]) ! b"
      by simp_all
    have am: "map_of m1 a = Some (length h)"
      using ext1 by (simp add: memo_ext_def)
    have inv2: "sim_inv h0 opn (m1, h1[length h := obj_with (h ! a) ys])"
      using sim_inv_fill [OF inv1 am] im ys ha by simp
    have ext: "memo_ext memo m1" using al0(2) ext1 by (rule memo_ext_trans)
    have same2: "\<forall>b < length h. (h1[length h := obj_with (h ! a) ys]) ! b = h ! b"
      using same1 by (simp add: nth_append)
    have len2: "length h \<le> length (h1[length h := obj_with (h ! a) ys])" using len1 by simp
    show ?thesis
      using res inv2 am ext same2 len2 by (simp add: tr_def in_memo_def)
  qed
next
  case (5 n x xs ms)
  note run = "5.prems"(1) and inv = "5.prems"(2)
  have x: "refs_ok 0 (length h0) x" and xs: "list_all (refs_ok 0 (length h0)) xs"
    using "5.prems"(3) by simp_all
  obtain y ms1 where one: "deepcopy n x ms = Some (y, ms1)"
    using run by (auto split: option.splits)
  obtain ys' ms2 where rest: "deepcopy_all n xs ms1 = Some (ys', ms2)"
    using run one by (auto split: option.splits)
  have res: "ys = y # ys'" "ms' = ms2" using run one rest by simp_all
  from "5.IH"(1) [OF one inv x]
  have inv1: "sim_inv h0 opn ms1" and y: "y = tr (fst ms1) x" and xm: "in_memo (fst ms1) x"
    and ext1: "memo_ext (fst ms) (fst ms1)"
    and len1: "length (snd ms) \<le> length (snd ms1)"
    and same1: "\<forall>b < length (snd ms). snd ms1 ! b = snd ms ! b"
    by simp_all
  from "5.IH"(2) [OF one refl rest inv1 xs]
  have inv2: "sim_inv h0 opn ms2" and ys': "ys' = map (tr (fst ms2)) xs"
    and xsm: "list_all (in_memo (fst ms2)) xs"
    and ext2: "memo_ext (fst ms1) (fst ms2)"
    and len2: "length (snd ms1) \<le> length (snd ms2)"
    and same2: "\<forall>b < length (snd ms1). snd ms2 ! b = snd ms1 ! b"
    by simp_all
  from tr_memo_ext [OF ext2 xm]
  have y2: "y = tr (fst ms2) x" and xm2: "in_memo (fst ms2) x" using y by simp_all
  have ext: "memo_ext (fst ms) (fst ms2)" using ext1 ext2 by (rule memo_ext_trans)
  show ?case using res inv2 y2 ys' xm2 xsm ext len1 len2 same1 same2 by simp
qed (auto simp: tr_def in_memo_def memo_ext_refl)

lemma zip_map_fst_snd:
  "length ks = length vs \<Longrightarrow> map fst (zip ks vs) = ks \<and> map snd (zip ks vs) = vs"
  by simp

lemma reify_copy:
  "sim_inv h0 {} (m, h) \<Longrightarrow> refs_ok 0 (length h0) v \<Longrightarrow> in_memo m v \<Longrightarrow>
     reify n h (tr m v) = reify n h0 v"
  "sim_inv h0 {} (m, h) \<Longrightarrow> list_all (refs_ok 0 (length h0)) vs \<Longrightarrow> list_all (in_memo m) vs \<Longrightarrow>
     reify_all n h (map (tr m) vs) = reify_all n h0 vs"
proof (induction n h0 v and n h0 vs rule: reify_reify_all.induct)
  case (7 n h0 a)
  note d = sim_invD [OF "7.prems"(1)]
  obtain a' where ma: "map_of m a = Some a'"
    using "7.prems"(3) by (auto simp: in_memo_def)
  have am: "(a, a') \<in> set m" using ma by (rule map_of_SomeD)
  note e = d(4) [OF am]
  have a0: "a < length h0" and a'h: "a' < length h" using e by simp_all
  have cm: "complete h0 m h a a'" using e by simp
  have kids_ok: "list_all (refs_ok 0 (length h0)) (obj_vals (h0 ! a))"
    using d(3) a0 by (auto simp: closed_from_iff list_all_iff)
  have kids_in: "list_all (in_memo m) (obj_vals (h0 ! a))"
    and obj: "h ! a' = obj_with (h0 ! a) (map (tr m) (obj_vals (h0 ! a)))"
    using cm by (simp_all add: complete_def)
  have t: "tr m (PRef a) = PRef a'" using ma by (simp add: tr_def)
  show ?case
  proof (cases "h0 ! a")
    case (ODict kvs)
    have ih: "reify_all n h (map (tr m) (map snd kvs)) = reify_all n h0 (map snd kvs)"
      using "7.IH"(1) [OF _ ODict "7.prems"(1)] a0 kids_ok kids_in ODict by simp
    have o: "h ! a' = ODict (zip (map fst kvs) (map (tr m) (map snd kvs)))"
      using obj ODict by simp
    have z: "map fst (zip (map fst kvs) (map (tr m) (map snd kvs))) = map fst kvs"
        "map snd (zip (map fst kvs) (map (tr m) (map snd kvs))) = map (tr m) (map snd kvs)"
      using zip_map_fst_snd [of "map fst kvs" "map (tr m) (map snd kvs)"] by simp_all
    have "reify (Suc n) h (PRef a')
            = map_option (\<lambda>ys. VDict (zip (map fst kvs) ys))
                (reify_all n h (map (tr m) (map snd kvs)))"
      using a'h o z by (simp del: map_map)
    then show ?thesis using t ih a0 ODict by simp
  next
    case (OList xs)
    have ih: "reify_all n h (map (tr m) xs) = reify_all n h0 xs"
      using "7.IH"(2) [OF _ OList "7.prems"(1)] a0 kids_ok kids_in OList by simp
    have o: "h ! a' = OList (map (tr m) xs)" using obj OList by simp
    then show ?thesis using t ih a0 a'h OList by simp
  qed
next
  case (9 n h0 x xs)
  have x: "refs_ok 0 (length h0) x" "in_memo m x"
    and xs: "list_all (refs_ok 0 (length h0)) xs" "list_all (in_memo m) xs"
    using "9.prems"(2,3) by simp_all
  have one: "reify n h (tr m x) = reify n h0 x"
    using "9.IH"(1) [OF "9.prems"(1) x] .
  show ?case
  proof (cases "reify n h0 x")
    case None
    then show ?thesis using one by simp
  next
    case (Some y)
    have "reify_all n h (map (tr m) xs) = reify_all n h0 xs"
      using "9.IH"(2) [OF Some "9.prems"(1) xs] .
    then show ?thesis using one Some by simp
  qed
qed (simp_all add: tr_def)

lemma sim_inv_start: "closed_from 0 h \<Longrightarrow> sim_inv h {} ([], h)"
  by (rule sim_invI) simp_all

lemma deepcopy_reads_same:
  assumes "deepcopy n v ([], h) = Some (v', m', h')" and "closed_from 0 h"
    and "refs_ok 0 (length h) v"
  shows "reify k h' v' = reify k h v"
proof -
  from deepcopy_sim(1) [OF assms(1) sim_inv_start [OF assms(2)] assms(3)]
  have inv: "sim_inv h {} (m', h')" and v': "v' = tr m' v" and im: "in_memo m' v"
    by simp_all
  show ?thesis using reify_copy(1) [OF inv assms(3) im] v' by simp
qed

lemma extends_refl: "extends h h"
  by (simp add: extends_def)

lemma extends_trans: "extends h h' \<Longrightarrow> extends h' h'' \<Longrightarrow> extends h h''"
  by (auto simp: extends_def)

lemma extends_snoc: "extends h (h @ [ob])"
  by (simp add: extends_def nth_append)

lemma reify_extends:
  assumes "closed_from lo h" and "extends h h'" and "refs_ok lo (length h) v"
  shows "reify n h' v = reify n h v"
  using assms reify_frame(1) [of lo h h' v n] by (simp add: extends_def)

lemma reify_all_extends:
  assumes "closed_from lo h" and "extends h h'" and "list_all (refs_ok lo (length h)) vs"
  shows "reify_all n h' vs = reify_all n h vs"
  using assms reify_frame(2) [of lo h h' vs n] by (simp add: extends_def)

lemma copy_items_reads_same:
  "copy_items h kvs = Some (kvs', h') \<Longrightarrow> closed_from 0 h \<Longrightarrow>
     list_all (refs_ok 0 (length h)) (map snd kvs) \<Longrightarrow>
     reify_all k h' (map snd kvs') = reify_all k h (map snd kvs)"
proof (induction h kvs arbitrary: kvs' h' rule: copy_items.induct)
  case (1 h)
  then show ?case by simp
next
  case (2 h key v kvs)
  note run = "2.prems"(1) and wf = "2.prems"(2)
  have v: "refs_ok 0 (length h) v" and vs: "list_all (refs_ok 0 (length h)) (map snd kvs)"
    using "2.prems"(3) by simp_all
  obtain v' memo h1 where one: "deepcopy (Suc (length h)) v ([], h) = Some (v', memo, h1)"
    using run by (auto split: option.splits)
  obtain kvs1 h2 where rest: "copy_items h1 kvs = Some (kvs1, h2)"
    using run one by (auto split: option.splits)
  have res: "kvs' = (key, v') # kvs1" "h' = h2" using run one rest by simp_all
  have rd: "reify k h1 v' = reify k h v"
    using one wf v by (rule deepcopy_reads_same)
  have inv_top: "copy_inv (length h) ([], h)"
    by (simp add: copy_inv_def closed_from_top)
  from deepcopy_inv(1) [OF one inv_top]
  have cl_new: "closed_from (length h) h1" and v'ok: "refs_ok (length h) (length h1) v'"
    and ext1: "extends h h1"
    by (simp_all add: copy_inv_def extends_def)
  have inv_0: "copy_inv 0 ([], h)" using wf by (simp add: copy_inv_def)
  from deepcopy_inv(1) [OF one inv_0]
  have wf1: "closed_from 0 h1" by (simp add: copy_inv_def)
  have "0 \<le> length h1" by simp
  from copy_items_inv [OF rest this wf1]
  have ext2: "extends h1 h2" by (simp add: extends_def)
  have vs1: "list_all (refs_ok 0 (length h1)) (map snd kvs)"
    using vs ext1 by (auto simp: list_all_iff extends_def intro: refs_ok_mono)
  have a: "reify k h2 v' = reify k h v"
    using reify_extends [OF cl_new ext2 v'ok] rd by simp
  have b: "reify_all k h2 (map snd kvs1) = reify_all k h1 (map snd kvs)"
    using "2.IH" [OF one refl refl rest wf1 vs1] .
  have c: "reify_all k h1 (map snd kvs) = reify_all k h (map snd kvs)"
    using wf ext1 vs by (rule reify_all_extends)
  have bc: "reify_all k h2 (map snd kvs1) = reify_all k h (map snd kvs)"
    using b c by simp
  have "reify_all k h2 (v' # map snd kvs1) = reify_all k h (v # map snd kvs)"
    by (simp only: reify_all.simps a bc)
  then show ?case using res by simp
qed

lemma copy_layer_reads_same:
  assumes cl: "copy_layer h (Some v) = Some (Inr (a', h'))" and wf: "closed_from 0 h"
    and ok: "refs_ok 0 (length h) v"
  shows "reify n h' (PRef a') = reify n h v"
proof -
  obtain a where v: "v = PRef a"
    using cl by (cases v) (simp_all add: copy_layer_def)
  have a: "a < length h" using ok v by (simp add: refs_ok_def)
  obtain kvs where ob: "h ! a = ODict kvs"
    using cl v a by (cases "h ! a") (simp_all add: copy_layer_def)
  obtain kvs' h1 where items: "copy_items h kvs = Some (kvs', h1)"
    using cl v a ob by (auto simp: copy_layer_def split: option.splits)
  have res: "a' = length h1" "h' = h1 @ [ODict kvs']"
    using cl v a ob items by (simp_all add: copy_layer_def)
  have vals: "list_all (refs_ok 0 (length h)) (map snd kvs)"
    using wf a ob by (auto simp: closed_from_iff list_all_iff)
  from copy_items_inv [OF items le_refl closed_from_top]
  have cl1: "closed_from (length h) h1"
    and ok1: "list_all (refs_ok (length h) (length h1)) (map snd kvs')"
    and keys: "map fst kvs' = map fst kvs"
    by simp_all
  show ?thesis
  proof (cases n)
    case 0
    then show ?thesis by simp
  next
    case (Suc j)
    have "reify_all j h' (map snd kvs') = reify_all j h1 (map snd kvs')"
      unfolding res using cl1 extends_snoc ok1 by (rule reify_all_extends)
    also have "\<dots> = reify_all j h (map snd kvs)"
      using items wf vals by (rule copy_items_reads_same)
    finally have "reify_all j h' (map snd kvs') = reify_all j h (map snd kvs)" .
    then show ?thesis using Suc res v a ob keys by simp
  qed
qed

lemma copy_layer_stored:
  assumes cl: "copy_layer h g = Some (Inr (a, h'))" and wf: "closed_from 0 h"
    and ok: "given_ok h g"
  shows "stored n h h' g a"
proof (cases g)
  case None
  then show ?thesis using cl by (auto simp: stored_def copy_layer_def layer_def)
next
  case (Some v)
  then have "refs_ok 0 (length h) v" using ok by (simp add: given_ok_def)
  with cl wf Some show ?thesis by (simp add: stored_def copy_layer_reads_same)
qed

lemma stored_later:
  assumes st: "stored n h0 h1 g a" and cl: "closed_from lo h1" and a: "lo \<le> a" "a < length h1"
    and ext: "extends h1 h2"
  shows "stored n h0 h2 g a"
proof -
  have ok: "refs_ok lo (length h1) (PRef a)" using a by (simp add: refs_ok_def)
  have rd: "reify n h2 (PRef a) = reify n h1 (PRef a)"
    using cl ext ok by (rule reify_extends)
  have ly: "layer h2 a = layer h1 a"
    using ext a by (simp add: layer_def extends_def)
  show ?thesis using st rd ly by (simp add: stored_def split: option.splits)
qed

lemma stored_earlier:
  assumes st: "stored n h1 h2 g a" and wf: "closed_from 0 h0" and ok: "given_ok h0 g"
    and ext: "extends h0 h1"
  shows "stored n h0 h2 g a"
proof (cases g)
  case None
  then show ?thesis using st by (simp add: stored_def)
next
  case (Some v)
  then have "refs_ok 0 (length h0) v" using ok by (simp add: given_ok_def)
  with wf ext have "reify n h1 v = reify n h0 v" by (rule reify_extends)
  then show ?thesis using st Some by (simp add: stored_def)
qed

lemma copy_layer_step:
  assumes cl: "copy_layer h1 g = Some (Inr (a, h2))"
    and wf0: "closed_from 0 h0" and ok0: "given_ok h0 g" and ext: "extends h0 h1"
    and wf1: "closed_from 0 h1"
  shows "closed_from 0 h2" and "extends h1 h2"
    and "\<And>h3. extends h2 h3 \<Longrightarrow> stored n h0 h3 g a"
proof -
  have "0 \<le> length h1" by simp
  from copy_layer_inv [OF cl this wf1]
  show wf2: "closed_from 0 h2" and e12: "extends h1 h2"
    by (simp_all add: extends_def)
  from copy_layer_inv [OF cl le_refl closed_from_top]
  have cln: "closed_from (length h1) h2" and a: "length h1 \<le> a" "a < length h2"
    by simp_all
  have ok1: "given_ok h1 g"
    using ok0 ext by (auto simp: given_ok_def extends_def split: option.splits intro: refs_ok_mono)
  have "stored n h1 h2 g a" using cl wf1 ok1 by (rule copy_layer_stored)
  then have s02: "stored n h0 h2 g a" using wf0 ok0 ext by (rule stored_earlier)
  show "stored n h0 h3 g a" if "extends h2 h3" for h3
    using s02 cln a that by (rule stored_later)
qed

lemma AnswersMap_new_copies:
  assumes new: "AnswersMap_new h i u l d = Some (Inr (r, h'))" and wf: "closed_from 0 h"
    and ok: "given_ok h i" "given_ok h u" "given_ok h l" "given_ok h d"
  shows "stored n h h' i (r_init r) \<and> stored n h h' u (r_user r)
       \<and> stored n h h' l (r_last r) \<and> stored n h h' d (r_default r)
       \<and> layer h' (r_local r) = []"
proof -
  obtain ai h1 where c1: "copy_layer h i = Some (Inr (ai, h1))"
    using new by (auto simp: AnswersMap_new_def split: option.splits sum.splits)
  obtain au h2 where c2: "copy_layer h1 u = Some (Inr (au, h2))"
    using new c1 by (auto simp: AnswersMap_new_def split: option.splits sum.splits)
  obtain al h3 where c3: "copy_layer h2 l = Some (Inr (al, h3))"
    using new c1 c2 by (auto simp: AnswersMap_new_def split: option.splits sum.splits)
  obtain ad h4 where c4: "copy_layer h3 d = Some (Inr (ad, h4))"
    using new c1 c2 c3 by (auto simp: AnswersMap_new_def split: option.splits sum.splits)
  have res: "r = \<lparr>r_init = ai, r_user = au, r_last = al, r_default = ad, r_local = length h4\<rparr>"
      "h' = h4 @ [ODict []]"
    using new c1 c2 c3 c4 by (simp_all add: AnswersMap_new_def)
  note s1 = copy_layer_step [OF c1 wf ok(1) extends_refl wf]
  note s2 = copy_layer_step [OF c2 wf ok(2) s1(2) s1(1)]
  have e02: "extends h h2" using s1(2) s2(2) by (rule extends_trans)
  note s3 = copy_layer_step [OF c3 wf ok(3) e02 s2(1)]
  have e03: "extends h h3" using e02 s3(2) by (rule extends_trans)
  note s4 = copy_layer_step [OF c4 wf ok(4) e03 s3(1)]
  have e4: "extends h4 h'" unfolding res by (rule extends_snoc)
  have e3: "extends h3 h'" using s4(2) e4 by (rule extends_trans)
  have e2: "extends h2 h'" using s3(2) e3 by (rule extends_trans)
  have e1: "extends h1 h'" using s2(2) e2 by (rule extends_trans)
  have "layer h' (r_local r) = []" by (simp add: res layer_def)
  then show ?thesis
    using s1(3) [OF e1] s2(3) [OF e2] s3(3) [OF e3] s4(3) [OF e4] by (simp add: res(1))
qed

text \<open>
  C7. \<open>AnswersMap(init=i, user=u, last=l, default=d)\<close> has returned the instance \<open>r\<close>,
  in a store whose references were within bounds. Each of the four layers is stored as
  a copy: it reads, to every depth, as the given mapping did when the call was made (and
  is empty where none was given). Then let the objects that were in the store before the
  call change in any way (the given mappings and everything nested in them are among
  these; only the objects the call has made are as it left them): \<open>combined\<close> is the
  same view, and every lookup in it reads the same value, to every depth, provided the
  values of the constant \<open>DEFAULT_DATA\<close> themselves read the same. \<open>combined\<close> is a
  function of the instance and the store, so two reads with no change between them are
  equal as well. By \<open>AnswersMap_new_returns\<close> the call returns on every such store.
\<close>

theorem AnswersMap_deep_copy:
  assumes new: "AnswersMap_new h i u l d = Some (Inr (r, h1))"
    and wf: "closed_from 0 h"
    and ok: "given_ok h i" "given_ok h u" "given_ok h l" "given_ok h d"
    and len: "length h1 \<le> length h2"
    and keep: "\<forall>a. length h \<le> a \<and> a < length h1 \<longrightarrow> h2 ! a = h1 ! a"
    and dd: "list_all (\<lambda>(k, v). reify n h2 v = reify n h1 v) dd"
  shows "stored n h h1 i (r_init r) \<and> stored n h h1 u (r_user r)
       \<and> stored n h h1 l (r_last r) \<and> stored n h h1 d (r_default r)
       \<and> combined dd (deref_answers h2 r) = combined dd (deref_answers h1 r)
       \<and> map_option (reify n h2) (ChainMap_get (combined dd (deref_answers h2 r)) k)
         = map_option (reify n h1) (ChainMap_get (combined dd (deref_answers h1 r)) k)"
  using AnswersMap_new_copies [OF new wf ok, of n] AnswersMap_isolated [OF new len keep dd, of k]
  by blast

theorem AnswersMap_deep_copy_witness:
  "reify 3 example_store_after (PRef (r_init example_ref))
     = Some (VDict [(''name'', VStr ''Alice''), (''tags'', VList [VStr ''x''])])
   \<and> map_option (reify 3 (example_store_after
        [0 := ODict [(''name'', PStr ''Mallory''), (''tags'', PRef 1)],
         1 := OList [PStr ''y'', PStr ''z'']]))
     (ChainMap_get (combined [(''now'', PFun 0)]
        (deref_answers (example_store_after
            [0 := ODict [(''name'', PStr ''Mallory''), (''tags'', PRef 1)],
             1 := OList [PStr ''y'', PStr ''z'']]) example_ref)) ''tags'')
   = Some (Some (VList [VStr ''x'']))"
proof -
  let ?h2 = "example_store_after
        [0 := ODict [(''name'', PStr ''Mallory''), (''tags'', PRef 1)],
         1 := OList [PStr ''y'', PStr ''z'']]"
  have wf: "closed_from 0 example_store"
    by (simp add: closed_from_def example_store_def refs_ok_def)
  have ok: "given_ok example_store (Some (PRef 0))" "given_ok example_store None"
    by (simp_all add: given_ok_def refs_ok_def example_store_def)
  have len: "length example_store_after \<le> length ?h2" by simp
  have keep: "\<forall>a. length example_store \<le> a \<and> a < length example_store_after
                \<longrightarrow> ?h2 ! a = example_store_after ! a"
    by (simp add: example_store_def)
  have dd: "list_all (\<lambda>(k, v). reify 3 ?h2 v = reify 3 example_store_after v) [(''now'', PFun 0)]"
    by (simp add: numeral_3_eq_3)
  note th = AnswersMap_deep_copy [OF example_new wf ok(1) ok(2) ok(2) ok(2) len keep dd, of "''tags''"]
  have before: "reify 3 example_store (PRef 0)
      = Some (VDict [(''name'', VStr ''Alice''), (''tags'', VList [VStr ''x''])])"
    by (simp add: example_store_def numeral_3_eq_3)
  have "stored 3 example_store example_store_after (Some (PRef 0)) (r_init example_ref)"
    using th by blast
  then have one: "reify 3 example_store_after (PRef (r_init example_ref))
     = Some (VDict [(''name'', VStr ''Alice''), (''tags'', VList [VStr ''x''])])"
    using before by (simp add: stored_def)
  have after: "map_option (reify 3 example_store_after)
          (ChainMap_get (combined [(''now'', PFun 0)]
             (deref_answers example_store_after example_ref)) ''tags'')
        = Some (Some (VList [VStr ''x'']))"
    by (simp add: combined_def deref_answers_def layer_def example_store_after_def
          example_ref_def numeral_3_eq_3 numeral_2_eq_2)
  have "map_option (reify 3 ?h2)
          (ChainMap_get (combined [(''now'', PFun 0)] (deref_answers ?h2 example_ref)) ''tags'')
        = map_option (reify 3 example_store_after)
          (ChainMap_get (combined [(''now'', PFun 0)]
             (deref_answers example_store_after example_ref)) ''tags'')"
    using th by blast
  also note after
  finally show ?thesis using one by simp
qed

end
